theory Spec2Isabelle
  imports
    Main
    "HOL-Library.AList"
    "HOL-Library.Char_ord"
    "HOL-Library.List_Lexorder"
    "HOL-Library.Multiset"
begin

section \<open>Data model\<close>

text \<open>
  An \<open>AssetKey\<close> is its \<open>path\<close>, a sequence of strings. Python compares asset keys
  as tuples, that is lexicographically, which is the order of \<open>List_Lexorder\<close> over
  the order of \<open>Char_ord\<close>.
\<close>

type_synonym asset_key = "string list"

text \<open>
  A Python \<open>dict\<close> is an association list in insertion order: \<open>d.items()\<close> is the
  list itself, \<open>d[k] = v\<close> is \<open>AList.update k v d\<close> (overwrite in place, or append),
  \<open>k in d\<close> is membership in \<open>fst ` set d\<close>, and \<open>d[k]\<close> is \<open>map_of d k\<close>.
\<close>

type_synonym ('k, 'v) dict = "('k \<times> 'v) list"

text \<open>
  The exceptions the modelled code can raise. A \<open>DagsterInvalidDefinitionError\<close>
  carries the values its message is formatted from.
\<close>

datatype definition_error =
    PartitionsDefsDiffer asset_key asset_key
  | InputNotProduced asset_key asset_key
  | ConflictingAssetResources string
  | JobResourceConflict string

datatype error =
    DagsterInvalidDefinitionError definition_error
  | CircularDependencyError
  | CheckError
  | StopIteration
  | KeyError
  | IndexError

text \<open>
  The attributes of an \<open>AssetsDefinition\<close> that the job builder reads. The class
  itself lives in \<open>assets.py\<close>; the record holds the values of its properties.
  \<open>keys\<close> is the set of asset keys in its iteration order, \<open>partitions_def\<close> is
  \<open>None\<close> or a (truthy) partitions definition compared by value, and resource
  definitions are compared by identity, which is equality on \<open>'r\<close>.
  \<open>asset_deps\<close> gives, for every output key, the keys that output depends on.
\<close>

record ('p, 'r) assets_definition =
  node_def_name :: string
  keys :: "asset_key list"
  keys_by_input_name :: "(string, asset_key) dict"
  keys_by_output_name :: "(string, asset_key) dict"
  group_names_by_key :: "(asset_key, string) dict"
  asset_deps :: "(asset_key, asset_key list) dict"
  partitions_def :: "'p option"
  resource_defs :: "(string, 'r) dict"
  can_subset :: bool

record 'r source_asset =
  source_key :: asset_key
  source_group_name :: string
  source_resource_defs :: "(string, 'r) dict"

text \<open>\<open>next(iter(xs))\<close>: the first element, or \<open>StopIteration\<close>.\<close>

definition next_iter :: "'a list \<Rightarrow> error + 'a" where
  "next_iter xs = (case xs of [] \<Rightarrow> Inl StopIteration | x # _ \<Rightarrow> Inr x)"

section \<open>Partition policy unifier\<close>

text \<open>The \<open>for\<close> loop of \<open>build_job_partitions_from_assets\<close>.\<close>

fun partitions_loop ::
  "('p, 'r) assets_definition \<Rightarrow> ('p, 'r) assets_definition list \<Rightarrow> error + unit" where
  "partitions_loop first_def [] = Inr ()"
| "partitions_loop first_def (assets_def # rest) =
     (if partitions_def assets_def \<noteq> partitions_def first_def then
        (case next_iter (keys assets_def) of
           Inl e \<Rightarrow> Inl e
         | Inr first_asset_key \<Rightarrow>
             (case next_iter (keys first_def) of
                Inl e \<Rightarrow> Inl e
              | Inr second_asset_key \<Rightarrow>
                  Inl (DagsterInvalidDefinitionError
                         (PartitionsDefsDiffer first_asset_key second_asset_key))))
      else partitions_loop first_def rest)"

definition build_job_partitions_from_assets ::
  "('p, 'r) assets_definition list \<Rightarrow> error + 'p option" where
  "build_job_partitions_from_assets assets =
     (let assets_with_partitions_defs = filter (\<lambda>ad. partitions_def ad \<noteq> None) assets in
      case assets_with_partitions_defs of
        [] \<Rightarrow> Inr None
      | first_def # _ \<Rightarrow>
          (case partitions_loop first_def assets_with_partitions_defs of
             Inl e \<Rightarrow> Inl e
           | Inr _ \<Rightarrow> Inr (partitions_def first_def)))"


section \<open>Resource conformance checker\<close>

text \<open>
  \<open>[*assets, *source_assets]\<close> holds values of \<open>Union[AssetsDefinition, SourceAsset]\<close>;
  both classes have a \<open>resource_defs\<close> attribute.
\<close>

datatype ('p, 'r) asset_or_source =
    IsAssetsDefinition "('p, 'r) assets_definition"
  | IsSourceAsset "'r source_asset"

fun resource_defs_of :: "('p, 'r) asset_or_source \<Rightarrow> (string, 'r) dict" where
  "resource_defs_of (IsAssetsDefinition ad) = resource_defs ad"
| "resource_defs_of (IsSourceAsset sa) = source_resource_defs sa"

definition all_assets_of ::
  "('p, 'r) assets_definition list \<Rightarrow> 'r source_asset list \<Rightarrow> ('p, 'r) asset_or_source list" where
  "all_assets_of assets source_assets =
     map IsAssetsDefinition assets @ map IsSourceAsset source_assets"

text \<open>
  The inner loop of \<open>_ensure_resources_dont_conflict\<close> over the items of one asset's
  \<open>resource_defs\<close>; the accumulator is \<open>resource_defs_from_assets\<close>. After the first
  \<open>if\<close> the key is in the table, so the lookup of the second \<open>if\<close> cannot fail.
\<close>

fun asset_resources_loop ::
  "(string, 'r) dict \<Rightarrow> (string \<times> 'r) list \<Rightarrow> error + (string, 'r) dict" where
  "asset_resources_loop resource_defs_from_assets [] = Inr resource_defs_from_assets"
| "asset_resources_loop resource_defs_from_assets ((resource_key, resource_def) # rest) =
     (let tbl = (if resource_key \<notin> fst ` set resource_defs_from_assets
                 then AList.update resource_key resource_def resource_defs_from_assets
                 else resource_defs_from_assets)
      in if map_of tbl resource_key \<noteq> Some resource_def
         then Inl (DagsterInvalidDefinitionError (ConflictingAssetResources resource_key))
         else asset_resources_loop tbl rest)"

text \<open>The outer loop over \<open>all_assets\<close>.\<close>

fun all_assets_resources_loop ::
  "(string, 'r) dict \<Rightarrow> ('p, 'r) asset_or_source list \<Rightarrow> error + (string, 'r) dict" where
  "all_assets_resources_loop tbl [] = Inr tbl"
| "all_assets_resources_loop tbl (asset # rest) =
     (case asset_resources_loop tbl (resource_defs_of asset) of
        Inl e \<Rightarrow> Inl e
      | Inr tbl' \<Rightarrow> all_assets_resources_loop tbl' rest)"

text \<open>The second loop, over the items of the job's \<open>resource_defs\<close>.\<close>

fun job_resources_loop :: "(string, 'r) dict \<Rightarrow> (string \<times> 'r) list \<Rightarrow> error + unit" where
  "job_resources_loop resource_defs_from_assets [] = Inr ()"
| "job_resources_loop resource_defs_from_assets ((resource_key, resource_def) # rest) =
     (if resource_key \<noteq> ''io_manager''
         \<and> resource_key \<in> fst ` set resource_defs_from_assets
         \<and> map_of resource_defs_from_assets resource_key \<noteq> Some resource_def
      then Inl (DagsterInvalidDefinitionError (JobResourceConflict resource_key))
      else job_resources_loop resource_defs_from_assets rest)"

definition ensure_resources_dont_conflict ::
  "('p, 'r) assets_definition list \<Rightarrow> 'r source_asset list \<Rightarrow> (string, 'r) dict
     \<Rightarrow> error + unit" where
  "ensure_resources_dont_conflict assets source_assets job_resource_defs =
     (case all_assets_resources_loop [] (all_assets_of assets source_assets) of
        Inl e \<Rightarrow> Inl e
      | Inr resource_defs_from_assets \<Rightarrow>
          job_resources_loop resource_defs_from_assets job_resource_defs)"







section \<open>Key resolver\<close>

text \<open>A \<open>for\<close> loop over a list whose body updates a state or raises.\<close>

fun for_loop :: "('a \<Rightarrow> 's \<Rightarrow> error + 's) \<Rightarrow> 'a list \<Rightarrow> 's \<Rightarrow> error + 's" where
  "for_loop body [] s = Inr s"
| "for_loop body (x # xs) s =
     (case body x s of Inl e \<Rightarrow> Inl e | Inr s' \<Rightarrow> for_loop body xs s')"

type_synonym group_table = "(string \<times> string, asset_key) dict"

text \<open>
  The first loop of \<open>resolve_assets_def_deps\<close>, which fills
  \<open>asset_keys_by_group_and_name\<close>. \<open>group_names_by_key[key]\<close> raises \<open>KeyError\<close> for
  a key without group and \<open>key.path[-1]\<close> raises \<open>IndexError\<close> for an empty path.
\<close>

definition add_asset_key ::
  "('p, 'r) assets_definition \<Rightarrow> asset_key \<Rightarrow> group_table \<Rightarrow> error + group_table" where
  "add_asset_key assets_def key tbl =
     (case map_of (group_names_by_key assets_def) key of
        None \<Rightarrow> Inl KeyError
      | Some group_name \<Rightarrow>
          if key = [] then Inl IndexError
          else Inr (AList.update (group_name, last key) key tbl))"

definition add_source_asset :: "'r source_asset \<Rightarrow> group_table \<Rightarrow> error + group_table" where
  "add_source_asset source tbl =
     (if source_key source = [] then Inl IndexError
      else Inr (AList.update (source_group_name source, last (source_key source))
                  (source_key source) tbl))"

definition asset_keys_by_group_and_name ::
  "('p, 'r) assets_definition list \<Rightarrow> 'r source_asset list \<Rightarrow> error + group_table" where
  "asset_keys_by_group_and_name assets_defs source_assets =
     (case for_loop (\<lambda>assets_def. for_loop (add_asset_key assets_def) (keys assets_def))
             assets_defs [] of
        Inl e \<Rightarrow> Inl e
      | Inr tbl \<Rightarrow> for_loop add_source_asset source_assets tbl)"

text \<open>
  The body of the loop over \<open>keys_by_input_name.items()\<close>. \<open>asset_keys\<close> is the list
  of values of the table, \<open>grp\<close> (the variable \<open>group\<close>) is \<open>None\<close> or the group found for the definition.
\<close>

definition resolve_input ::
  "group_table \<Rightarrow> asset_key list \<Rightarrow> ('p, 'r) assets_definition \<Rightarrow> string option
     \<Rightarrow> string \<times> asset_key \<Rightarrow> (string, asset_key) dict \<Rightarrow> error + (string, asset_key) dict" where
  "resolve_input tbl asset_keys assets_def grp = (\<lambda>(input_name, upstream_asset_key)
       dep_keys_by_input_name.
     if upstream_asset_key = [] then Inl IndexError
     else if upstream_asset_key \<in> set asset_keys
       then Inr (AList.update input_name upstream_asset_key dep_keys_by_input_name)
     else
       (case (case grp of None \<Rightarrow> None
                | Some g \<Rightarrow> map_of tbl (g, last upstream_asset_key)) of
          Some key \<Rightarrow> Inr (AList.update input_name key dep_keys_by_input_name)
        | None \<Rightarrow>
            (case next_iter (keys assets_def) of
               Inl e \<Rightarrow> Inl e
             | Inr first_key \<Rightarrow>
                 Inl (DagsterInvalidDefinitionError
                        (InputNotProduced upstream_asset_key first_key)))))"

text \<open>
  The group of a definition: the only value of \<open>group_names_by_key\<close> when that dict
  has exactly one entry, and \<open>None\<close> otherwise.
\<close>

definition group_of :: "('p, 'r) assets_definition \<Rightarrow> string option" where
  "group_of assets_def =
     (if length (group_names_by_key assets_def) = 1
      then Some (snd (hd (group_names_by_key assets_def))) else None)"

definition resolve_assets_def ::
  "group_table \<Rightarrow> asset_key list \<Rightarrow> ('p, 'r) assets_definition
     \<Rightarrow> error + (string, asset_key) dict" where
  "resolve_assets_def tbl asset_keys assets_def =
     for_loop (resolve_input tbl asset_keys assets_def (group_of assets_def))
       (keys_by_input_name assets_def) []"

definition resolve_assets_def_deps ::
  "('p, 'r) assets_definition list \<Rightarrow> 'r source_asset list
     \<Rightarrow> error + (('p, 'r) assets_definition \<times> (string, asset_key) dict) list" where
  "resolve_assets_def_deps assets_defs source_assets =
     (case asset_keys_by_group_and_name assets_defs source_assets of
        Inl e \<Rightarrow> Inl e
      | Inr tbl \<Rightarrow>
          for_loop (\<lambda>assets_def result.
                      case resolve_assets_def tbl (map snd tbl) assets_def of
                        Inl e \<Rightarrow> Inl e
                      | Inr dep_keys_by_input_name \<Rightarrow>
                          Inr (result @ [(assets_def, dep_keys_by_input_name)]))
            assets_defs [])"

section \<open>Node graph assembler\<close>

text \<open>
  The key of a node in the dependency dict is the name of its definition, or a
  \<open>NodeInvocation\<close> of the definition under an alias. A dependency is a
  \<open>DependencyDefinition\<close> on an output of a node, or of another kind.
\<close>

datatype node_key = NodeName string | NodeInvocation string string

datatype dependency = DependencyDefinition string string | OtherDependency

text \<open>\<open>str\<close> of a natural number, as the f-string formats the collision count.\<close>

fun str_of_nat :: "nat \<Rightarrow> string" where
  "str_of_nat n =
     (if n < 10 then [''0123456789'' ! n]
      else str_of_nat (n div 10) @ [''0123456789'' ! (n mod 10)])"

declare str_of_nat.simps [simp del]

type_synonym ('p, 'r) naming_state =
  "(string, nat) dict \<times> (string, ('p, 'r) assets_definition) dict
     \<times> (asset_key, string \<times> string) dict"

text \<open>
  The body of the first loop of \<open>build_node_deps\<close>; the state is \<open>collisions\<close>,
  \<open>assets_defs_by_node_handle\<close> (a top-level \<open>NodeHandle\<close> is its name) and
  \<open>node_alias_and_output_by_asset_key\<close>.
\<close>

definition name_node :: "('p, 'r) assets_definition \<Rightarrow> ('p, 'r) naming_state
    \<Rightarrow> ('p, 'r) naming_state" where
  "name_node assets_def = (\<lambda>(collisions, assets_defs_by_node_handle,
       node_alias_and_output_by_asset_key).
     let node_name = node_def_name assets_def;
         count = (case map_of collisions node_name of
                    None \<Rightarrow> 1
                  | Some c \<Rightarrow> if c \<noteq> 0 then c + 1 else 1);
         node_alias = (case map_of collisions node_name of
                         None \<Rightarrow> node_name
                       | Some c \<Rightarrow> if c \<noteq> 0 then node_name @ ''_'' @ str_of_nat (c + 1)
                                   else node_name)
     in (AList.update node_name count collisions,
         AList.update node_alias assets_def assets_defs_by_node_handle,
         fold (\<lambda>(output_name, key). AList.update key (node_alias, output_name))
           (keys_by_output_name assets_def) node_alias_and_output_by_asset_key))"

definition node_key_of :: "string \<Rightarrow> ('p, 'r) assets_definition \<Rightarrow> node_key" where
  "node_key_of node_handle assets_def =
     (if node_handle \<noteq> node_def_name assets_def
      then NodeInvocation (node_def_name assets_def) node_handle
      else NodeName (node_def_name assets_def))"

text \<open>
  The body of the second loop of \<open>build_node_deps\<close>, for one item of
  \<open>assets_defs_by_node_handle\<close>. The source stores an empty dict under \<open>node_key\<close>
  and, in one pass over the resolved inputs, fills it in place and records the input
  handles; here \<open>node_edges\<close> is the dict stored under \<open>node_key\<close> at the end of
  that pass and \<open>record_input_handles\<close> is what the pass does to
  \<open>asset_keys_by_input_handle\<close> (a \<open>NodeInputHandle\<close> is the pair of the node handle
  and the input name). \<open>resolved\<close> is the result of the key resolver: the source
  indexes it by \<open>id(assets_def)\<close>, and since the resolution of a definition is
  determined by the definition, the lookup by value finds the same entry.
\<close>

definition node_edges ::
  "(asset_key, string \<times> string) dict \<Rightarrow> (string, asset_key) dict \<Rightarrow> (string, dependency) dict"
  where
  "node_edges node_alias_and_output_by_asset_key dep_keys =
     fold (\<lambda>(input_name, upstream_asset_key) d.
             case map_of node_alias_and_output_by_asset_key upstream_asset_key of
               Some (upstream_node_alias, upstream_output_name) \<Rightarrow>
                 AList.update input_name
                   (DependencyDefinition upstream_node_alias upstream_output_name) d
             | None \<Rightarrow> d)
       dep_keys []"

definition record_input_handles ::
  "string \<Rightarrow> (string, asset_key) dict \<Rightarrow> (string \<times> string, asset_key) dict
     \<Rightarrow> (string \<times> string, asset_key) dict" where
  "record_input_handles node_handle dep_keys asset_keys_by_input_handle =
     fold (\<lambda>(input_name, upstream_asset_key).
             AList.update (node_handle, input_name) upstream_asset_key)
       dep_keys asset_keys_by_input_handle"

definition connect_node ::
  "(('p, 'r) assets_definition \<times> (string, asset_key) dict) list
     \<Rightarrow> (asset_key, string \<times> string) dict
     \<Rightarrow> string \<times> ('p, 'r) assets_definition
     \<Rightarrow> (node_key, (string, dependency) dict) dict \<times> (string \<times> string, asset_key) dict
     \<Rightarrow> error + (node_key, (string, dependency) dict) dict \<times> (string \<times> string, asset_key) dict"
  where
  "connect_node resolved node_alias_and_output_by_asset_key = (\<lambda>(node_handle, assets_def)
       (deps, asset_keys_by_input_handle).
     case map_of resolved assets_def of
       None \<Rightarrow> Inl KeyError
     | Some dep_keys \<Rightarrow>
         Inr (AList.update (node_key_of node_handle assets_def)
                (node_edges node_alias_and_output_by_asset_key dep_keys) deps,
              record_input_handles node_handle dep_keys asset_keys_by_input_handle))"

definition build_node_deps ::
  "('p, 'r) assets_definition list \<Rightarrow> 'r source_asset list
     \<Rightarrow> error + (node_key, (string, dependency) dict) dict
               \<times> (string, ('p, 'r) assets_definition) dict
               \<times> (string \<times> string, asset_key) dict" where
  "build_node_deps assets_defs source_assets =
     (let sorted_defs = sort_key (\<lambda>ad. sort (keys ad)) assets_defs;
          (collisions, assets_defs_by_node_handle, node_alias_and_output_by_asset_key) =
             fold name_node sorted_defs ([], [], [])
      in case resolve_assets_def_deps sorted_defs source_assets of
           Inl e \<Rightarrow> Inl e
         | Inr resolved \<Rightarrow>
             (case for_loop (connect_node resolved node_alias_and_output_by_asset_key)
                     assets_defs_by_node_handle ([], []) of
                Inl e \<Rightarrow> Inl e
              | Inr (deps, asset_keys_by_input_handle) \<Rightarrow>
                  Inr (deps, assets_defs_by_node_handle, asset_keys_by_input_handle)))"


section \<open>Key resolver: the resolution rule\<close>

text \<open>
  The key the branches of \<open>resolve_input\<close> choose for an input key, given the
  table, the list of its values and the group of the definition.
\<close>

definition resolve_key ::
  "group_table \<Rightarrow> asset_key list \<Rightarrow> string option \<Rightarrow> asset_key \<Rightarrow> asset_key option" where
  "resolve_key tbl asset_keys grp k =
     (if k \<in> set asset_keys then Some k
      else (case grp of None \<Rightarrow> None | Some g \<Rightarrow> map_of tbl (g, last k)))"

text \<open>
  The resolution rule the resolver is compared with, stated over the keys the
  computations produce and the keys of the source artifacts: the entries of the
  lookup table are the pairs of (group, final path segment) and key, for every
  output key of every computation and then for every source artifact.
\<close>

definition produced_and_source_keys ::
  "('p, 'r) assets_definition list \<Rightarrow> 'r source_asset list \<Rightarrow> asset_key list" where
  "produced_and_source_keys assets_defs source_assets =
     concat (map keys assets_defs) @ map source_key source_assets"

definition lookup_pairs ::
  "('p, 'r) assets_definition list \<Rightarrow> 'r source_asset list
     \<Rightarrow> ((string \<times> string) \<times> asset_key) list" where
  "lookup_pairs assets_defs source_assets =
     concat (map (\<lambda>ad. map (\<lambda>key. ((the (map_of (group_names_by_key ad) key), last key), key))
                        (keys ad)) assets_defs)
     @ map (\<lambda>sa. ((source_group_name sa, last (source_key sa)), source_key sa)) source_assets"

text \<open>
  An input key resolves to itself when it is a produced or source key; otherwise,
  when the computation has exactly one output key (its table of groups has a single
  entry), to the key found in the lookup table under that group and the final
  segment of the input key; otherwise it does not resolve.
\<close>

definition resolves_to ::
  "('p, 'r) assets_definition list \<Rightarrow> 'r source_asset list \<Rightarrow> ('p, 'r) assets_definition
     \<Rightarrow> asset_key \<Rightarrow> asset_key option" where
  "resolves_to assets_defs source_assets ad k =
     (if k \<in> set (produced_and_source_keys assets_defs source_assets) then Some k
      else (case group_names_by_key ad of
              [(out_key, g)] \<Rightarrow> map_of (lookup_pairs assets_defs source_assets) (g, last k)
            | _ \<Rightarrow> None))"


section \<open>Cycle detector\<close>

text \<open>
  \<open>toposort\<close> is the function of the package of that name which the job builder
  imports. Its argument maps every item to the set of items it depends on; sets are
  lists here. It discards self-dependencies, adds the items that occur only as
  dependencies, and then repeatedly yields the items without dependencies and
  removes them, until none is left or none is without dependency, in which case it
  raises \<open>CircularDependencyError\<close>. \<open>list(toposort(data))\<close> is the list of the sets
  yielded, or the error.
\<close>

definition no_deps :: "('a, 'a list) dict \<Rightarrow> 'a list" where
  "no_deps data = map fst (filter (\<lambda>(item, dep). dep = []) data)"

definition remove_items :: "'a list \<Rightarrow> ('a, 'a list) dict \<Rightarrow> ('a, 'a list) dict" where
  "remove_items ordered data =
     map (\<lambda>(item, dep). (item, filter (\<lambda>e. e \<notin> set ordered) dep))
       (filter (\<lambda>(item, dep). item \<notin> set ordered) data)"

function toposort_loop :: "('a, 'a list) dict \<Rightarrow> error + 'a list list" where
  "toposort_loop data =
     (if no_deps data = [] then
        (if data \<noteq> [] then Inl CircularDependencyError else Inr [])
      else
        (case toposort_loop (remove_items (no_deps data) data) of
           Inl e \<Rightarrow> Inl e
         | Inr layers \<Rightarrow> Inr (no_deps data # layers)))"
  by pat_completeness auto
termination
proof (relation "measure length")
  show "wf (measure length)" by simp
next
  fix data :: "('a, 'a list) dict"
  assume "no_deps data \<noteq> []"
  then obtain x where x: "x \<in> set (no_deps data)" by (cases "no_deps data") auto
  then obtain dep where "(x, dep) \<in> set data" by (auto simp: no_deps_def)
  with x have "length (filter (\<lambda>(item, dep). item \<notin> set (no_deps data)) data) < length data"
    by (intro length_filter_less [of "(x, dep)"]) auto
  then show "(remove_items (no_deps data) data, data) \<in> measure length"
    by (simp add: remove_items_def)
qed

declare toposort_loop.simps [simp del]

definition toposort_init :: "('a, 'a list) dict \<Rightarrow> ('a, 'a list) dict" where
  "toposort_init data =
     (let data1 = map (\<lambda>(item, dep). (item, filter (\<lambda>e. e \<noteq> item) dep)) data;
          extra_items_in_deps =
            filter (\<lambda>e. e \<notin> fst ` set data1) (remdups (concat (map snd data1)))
      in data1 @ map (\<lambda>item. (item, [])) extra_items_in_deps)"

definition toposort :: "('a, 'a list) dict \<Rightarrow> error + 'a list list" where
  "toposort data = (if data = [] then Inr [] else toposort_loop (toposort_init data))"

text \<open>
  \<open>_has_cycles\<close>. The keys of \<open>node_deps\<close> are the keys of \<open>deps\<close>, a node name or a
  \<open>NodeInvocation\<close>; the members of its sets are the node names \<open>dep.node\<close>, which
  are strings and so equal to the key of a node that is keyed by its name. A
  dependency of another kind makes \<open>check.failed\<close> raise \<open>CheckError\<close>, which the
  \<open>except\<close> clause does not catch.
\<close>

definition add_dep :: "dependency \<Rightarrow> node_key list \<Rightarrow> error + node_key list" where
  "add_dep dep upstream_nodes =
     (case dep of
        DependencyDefinition node out \<Rightarrow>
          Inr (if NodeName node \<in> set upstream_nodes then upstream_nodes
               else upstream_nodes @ [NodeName node])
      | OtherDependency \<Rightarrow> Inl CheckError)"

definition add_node_deps ::
  "node_key \<times> (string, dependency) dict \<Rightarrow> (node_key, node_key list) dict
     \<Rightarrow> error + (node_key, node_key list) dict" where
  "add_node_deps = (\<lambda>(upstream_node, downstream_deps) node_deps.
     case for_loop add_dep (map snd downstream_deps) [] of
       Inl e \<Rightarrow> Inl e
     | Inr upstream_nodes \<Rightarrow> Inr (AList.update upstream_node upstream_nodes node_deps))"

definition has_cycles :: "(node_key, (string, dependency) dict) dict \<Rightarrow> error + bool" where
  "has_cycles deps =
     (case for_loop add_node_deps deps [] of
        Inl e \<Rightarrow> Inl e
      | Inr node_deps \<Rightarrow>
          (case toposort node_deps of
             Inl e \<Rightarrow> if e = CircularDependencyError then Inr True else Inl e
           | Inr layers \<Rightarrow> Inr False))"

text \<open>
  The unit-level dependency graph of a dependency dict whose units are all keyed by
  their names: an edge leads from a consuming unit to each unit that one of its
  dependencies names.
\<close>

definition unit_edges :: "(node_key, (string, dependency) dict) dict \<Rightarrow> (node_key \<times> node_key) set"
  where
  "unit_edges deps =
     {(u, NodeName v) | u v inner n out.
        (u, inner) \<in> set deps \<and> (n, DependencyDefinition v out) \<in> set inner}"

text \<open>
  The unit-level dependency graph over unit identifiers: the identifier of a unit is
  its name, or its alias when it is an aliased invocation, and a dependency names
  the identifier of the producing unit.
\<close>

fun unit_name :: "node_key \<Rightarrow> string" where
  "unit_name (NodeName name) = name"
| "unit_name (NodeInvocation name alias) = alias"

definition unit_graph :: "(node_key, (string, dependency) dict) dict \<Rightarrow> (string \<times> string) set"
  where
  "unit_graph deps =
     {(unit_name u, v) | u v inner n out.
        (u, inner) \<in> set deps \<and> (n, DependencyDefinition v out) \<in> set inner}"

text \<open>The dependency relation of an argument of \<open>toposort\<close>.\<close>

definition dep_rel :: "('a, 'a list) dict \<Rightarrow> ('a \<times> 'a) set" where
  "dep_rel data = {(x, y). \<exists>dep. (x, dep) \<in> set data \<and> y \<in> set dep}"

definition closed_deps :: "('a, 'a list) dict \<Rightarrow> bool" where
  "closed_deps data \<longleftrightarrow> (\<forall>(x, dep)\<in>set data. set dep \<subseteq> fst ` set data)"


section \<open>Cycle resolver\<close>



















section \<open>Remote pipeline lookup\<close>

text \<open>
  The values \<open>external.py\<close> works on. The classes are defined in
  \<open>dagster.core.host_representation\<close>; the records hold the attributes that
  \<open>external_pipeline_from_run_with_repository_location_handle\<close> reads, and the
  location's method \<open>get_subset_external_pipeline_result\<close> is a field of the
  location.
\<close>

record pipeline_run =
  pipeline_name :: string
  solid_selection :: "string list option"

record pipeline_selector =
  selector_location_name :: string
  selector_repository_name :: string
  selector_pipeline_name :: string
  selector_solid_selection :: "string list option"

record 'h external_repository =
  repository_name :: string
  repository_handle :: 'h

record 'd subset_pipeline_result =
  external_pipeline_data :: 'd

record ('h, 'd) repository_location =
  location_name :: string
  get_repositories :: "(string, 'h external_repository) dict"
  get_subset_external_pipeline_result :: "pipeline_selector \<Rightarrow> 'd subset_pipeline_result"

datatype ('d, 'h) external_pipeline = ExternalPipeline 'd 'h

text \<open>
  \<open>RepositoryLocation.from_handle\<close> is the parameter \<open>from_handle\<close>. The two
  \<open>check.inst_param\<close> calls hold by typing; a failing \<open>check.invariant\<close> raises
  \<open>CheckError\<close>.
\<close>

definition external_pipeline_from_run_with_repository_location_handle ::
  "('l \<Rightarrow> ('h, 'd) repository_location) \<Rightarrow> pipeline_run \<Rightarrow> 'l
     \<Rightarrow> error + ('d, 'h) external_pipeline" where
  "external_pipeline_from_run_with_repository_location_handle from_handle run
       repository_location_handle =
     (let repo_location = from_handle repository_location_handle;
          repo_dict = get_repositories repo_location
      in if length repo_dict \<noteq> 1 then Inl CheckError
         else
           (case next_iter (map snd repo_dict) of
              Inl e \<Rightarrow> Inl e
            | Inr external_repo \<Rightarrow>
                (let selector =
                       \<lparr>selector_location_name = location_name repo_location,
                        selector_repository_name = repository_name external_repo,
                        selector_pipeline_name = pipeline_name run,
                        selector_solid_selection = solid_selection run\<rparr>;
                     subset_pipeline_result =
                       get_subset_external_pipeline_result repo_location selector
                 in Inr (ExternalPipeline (external_pipeline_data subset_pipeline_result)
                           (repository_handle external_repo)))))"


section \<open>Example inputs\<close>

text \<open>
  The definition an \<open>@asset\<close>-decorated function yields: one asset key, produced by
  the output \<open>result\<close>, in the group \<open>default\<close>, depending on all of its inputs.
\<close>

definition single_asset ::
  "string \<Rightarrow> asset_key \<Rightarrow> (string, asset_key) dict \<Rightarrow> (nat, nat) assets_definition" where
  "single_asset name key ins =
     \<lparr>node_def_name = name, keys = [key], keys_by_input_name = ins,
      keys_by_output_name = [(''result'', key)], group_names_by_key = [(key, ''default'')],
      asset_deps = [(key, map snd ins)], partitions_def = None, resource_defs = [],
      can_subset = False\<rparr>"



text \<open>
  A computation with two outputs, \<open>ox\<close> for the key \<open>x/t\<close> and \<open>oy\<close> for the key
  \<open>y/t\<close>, both in the group \<open>default\<close>. Its \<open>keys\<close> are a Python set, iterated in
  an order that depends on the string hashes of the process: the parameter is that
  iteration order.
\<close>

definition two_outputs_one_name :: "asset_key list \<Rightarrow> (nat, nat) assets_definition" where
  "two_outputs_one_name key_order =
     \<lparr>node_def_name = ''M'', keys = key_order, keys_by_input_name = [],
      keys_by_output_name = [(''ox'', [''x'', ''t'']), (''oy'', [''y'', ''t''])],
      group_names_by_key = [([''x'', ''t''], ''default''), ([''y'', ''t''], ''default'')],
      asset_deps = [([''x'', ''t''], []), ([''y'', ''t''], [])],
      partitions_def = None, resource_defs = [], can_subset = False\<rparr>"

section \<open>Proofs: partition policy unifier\<close>

lemma partitions_loop_all_equal:
  "\<forall>a\<in>set xs. partitions_def a = partitions_def f \<Longrightarrow> partitions_loop f xs = Inr ()"
  by (induction xs) auto

lemma partitions_loop_differ:
  assumes "\<exists>a\<in>set xs. partitions_def a \<noteq> partitions_def f"
    and "\<forall>a\<in>set xs. keys a \<noteq> []"
    and "keys f \<noteq> []"
  shows "\<exists>x\<in>set xs. \<exists>k1\<in>set (keys x). \<exists>k2\<in>set (keys f).
            partitions_def x \<noteq> partitions_def f \<and>
            partitions_loop f xs =
              Inl (DagsterInvalidDefinitionError (PartitionsDefsDiffer k1 k2))"
  using assms
proof (induction xs)
  case Nil
  then show ?case by simp
next
  case (Cons a xs)
  show ?case
  proof (cases "partitions_def a = partitions_def f")
    case True
    with Cons.prems have "\<exists>b\<in>set xs. partitions_def b \<noteq> partitions_def f"
      and "\<forall>b\<in>set xs. keys b \<noteq> []" by auto
    from Cons.IH [OF this Cons.prems(3)] True show ?thesis by auto
  next
    case False
    from Cons.prems obtain k ks where ka: "keys a = k # ks" by (cases "keys a") auto
    from Cons.prems obtain k' ks' where kf: "keys f = k' # ks'" by (cases "keys f") auto
    have "partitions_loop f (a # xs) =
            Inl (DagsterInvalidDefinitionError (PartitionsDefsDiffer k k'))"
      using False ka kf by (simp add: next_iter_def)
    with False ka kf show ?thesis by auto
  qed
qed

lemma unifier_none:
  "\<forall>a\<in>set assets. partitions_def a = None \<Longrightarrow>
     build_job_partitions_from_assets assets = Inr None"
proof -
  assume "\<forall>a\<in>set assets. partitions_def a = None"
  then have "filter (\<lambda>ad. partitions_def ad \<noteq> None) assets = []"
    by (simp add: filter_empty_conv)
  then show ?thesis by (simp add: build_job_partitions_from_assets_def)
qed

lemma unifier_common:
  assumes "\<exists>a\<in>set assets. partitions_def a = Some p"
    and "\<forall>a\<in>set assets. partitions_def a = None \<or> partitions_def a = Some p"
  shows "build_job_partitions_from_assets assets = Inr (Some p)"
proof -
  let ?ws = "filter (\<lambda>ad. partitions_def ad \<noteq> None) assets"
  from assms have all: "\<forall>a\<in>set ?ws. partitions_def a = Some p" by auto
  from assms have "?ws \<noteq> []" by (auto simp: filter_empty_conv)
  then obtain f rest where ws: "?ws = f # rest" by (cases ?ws) auto
  then have "f \<in> set ?ws" by simp
  with all have pf: "partitions_def f = Some p" by blast
  with all have "partitions_loop f ?ws = Inr ()"
    by (intro partitions_loop_all_equal) simp
  with ws pf show ?thesis by (simp add: build_job_partitions_from_assets_def)
qed

lemma unifier_conflict:
  assumes "a \<in> set assets" "b \<in> set assets"
    and "partitions_def a = Some p" "partitions_def b = Some q" "p \<noteq> q"
    and nonempty: "\<forall>a\<in>set assets. keys a \<noteq> []"
  shows "\<exists>x\<in>set assets. \<exists>y\<in>set assets. \<exists>k1\<in>set (keys x). \<exists>k2\<in>set (keys y).
           partitions_def x \<noteq> None \<and> partitions_def y \<noteq> None \<and>
           partitions_def x \<noteq> partitions_def y \<and>
           build_job_partitions_from_assets assets =
             Inl (DagsterInvalidDefinitionError (PartitionsDefsDiffer k1 k2))"
proof -
  let ?ws = "filter (\<lambda>ad. partitions_def ad \<noteq> None) assets"
  from assms have ab: "a \<in> set ?ws" "b \<in> set ?ws" by auto
  then have "?ws \<noteq> []" by (metis empty_iff empty_set)
  then obtain f rest where ws: "?ws = f # rest" by (cases ?ws) auto
  then have fin: "f \<in> set ?ws" by simp
  then have fa: "f \<in> set assets" and fp: "partitions_def f \<noteq> None" by auto
  from ab assms have differ: "\<exists>c\<in>set ?ws. partitions_def c \<noteq> partitions_def f"
    by (cases "partitions_def a = partitions_def f") auto
  have ne: "\<forall>c\<in>set ?ws. keys c \<noteq> []" using nonempty by auto
  have kf: "keys f \<noteq> []" using nonempty fa by auto
  from partitions_loop_differ [OF differ ne kf]
  obtain x k1 k2 where x: "x \<in> set ?ws" "k1 \<in> set (keys x)" "k2 \<in> set (keys f)"
    "partitions_def x \<noteq> partitions_def f"
    "partitions_loop f ?ws = Inl (DagsterInvalidDefinitionError (PartitionsDefsDiffer k1 k2))"
    by blast
  then have "build_job_partitions_from_assets assets =
               Inl (DagsterInvalidDefinitionError (PartitionsDefsDiffer k1 k2))"
    using ws by (simp add: build_job_partitions_from_assets_def)
  moreover from x have "x \<in> set assets" "partitions_def x \<noteq> None" by auto
  ultimately show ?thesis using x(2,3,4) fa fp
    by (intro bexI [of _ x] bexI [of _ f] bexI [of _ k1] bexI [of _ k2]) simp_all
qed

text \<open>
  C5. The partition policy unifier returns no partitioning when no computation
  declares a policy; it returns the common policy when every declared policy is the
  same value, whether or not some computations declare none; and when two declared
  policies differ, it raises a definition error that names one output key of each of
  two computations whose declared policies differ (every computation having at least
  one output key, as the data model requires).
\<close>

theorem partition_policy_unifier:
  fixes assets :: "('p, 'r) assets_definition list"
  shows "((\<forall>a\<in>set assets. partitions_def a = None) \<longrightarrow>
            build_job_partitions_from_assets assets = Inr None) \<and>
         (\<forall>p. (\<exists>a\<in>set assets. partitions_def a = Some p) \<and>
              (\<forall>a\<in>set assets. partitions_def a = None \<or> partitions_def a = Some p) \<longrightarrow>
            build_job_partitions_from_assets assets = Inr (Some p)) \<and>
         ((\<exists>a\<in>set assets. \<exists>b\<in>set assets. \<exists>p q.
              partitions_def a = Some p \<and> partitions_def b = Some q \<and> p \<noteq> q) \<and>
          (\<forall>a\<in>set assets. keys a \<noteq> []) \<longrightarrow>
            (\<exists>x\<in>set assets. \<exists>y\<in>set assets. \<exists>k1\<in>set (keys x). \<exists>k2\<in>set (keys y).
               partitions_def x \<noteq> None \<and> partitions_def y \<noteq> None \<and>
               partitions_def x \<noteq> partitions_def y \<and>
               build_job_partitions_from_assets assets =
                 Inl (DagsterInvalidDefinitionError (PartitionsDefsDiffer k1 k2))))"
proof (intro conjI allI impI)
  assume "\<forall>a\<in>set assets. partitions_def a = None"
  then show "build_job_partitions_from_assets assets = Inr None" by (rule unifier_none)
next
  fix p
  assume "(\<exists>a\<in>set assets. partitions_def a = Some p) \<and>
          (\<forall>a\<in>set assets. partitions_def a = None \<or> partitions_def a = Some p)"
  then have "\<exists>a\<in>set assets. partitions_def a = Some p"
    and "\<forall>a\<in>set assets. partitions_def a = None \<or> partitions_def a = Some p"
    by simp_all
  then show "build_job_partitions_from_assets assets = Inr (Some p)"
    by (rule unifier_common)
next
  assume h: "(\<exists>a\<in>set assets. \<exists>b\<in>set assets. \<exists>p q.
              partitions_def a = Some p \<and> partitions_def b = Some q \<and> p \<noteq> q) \<and>
          (\<forall>a\<in>set assets. keys a \<noteq> [])"
  then obtain a b p q where "a \<in> set assets" "b \<in> set assets"
    "partitions_def a = Some p" "partitions_def b = Some q" "p \<noteq> q" by blast
  moreover from h have "\<forall>a\<in>set assets. keys a \<noteq> []" by simp
  ultimately
  show "\<exists>x\<in>set assets. \<exists>y\<in>set assets. \<exists>k1\<in>set (keys x). \<exists>k2\<in>set (keys y).
               partitions_def x \<noteq> None \<and> partitions_def y \<noteq> None \<and>
               partitions_def x \<noteq> partitions_def y \<and>
               build_job_partitions_from_assets assets =
                 Inl (DagsterInvalidDefinitionError (PartitionsDefsDiffer k1 k2))"
    by (rule unifier_conflict)
qed

theorem partition_policy_unifier_witness:
  "build_job_partitions_from_assets
     [\<lparr>node_def_name = ''x'', keys = [[''p'']], keys_by_input_name = [],
       keys_by_output_name = [(''result'', [''p''])], group_names_by_key = [([''p''], ''default'')],
       asset_deps = [([''p''], [])], partitions_def = None, resource_defs = [],
       can_subset = False\<rparr> :: (nat, nat) assets_definition] = Inr None \<and>
   build_job_partitions_from_assets
     [\<lparr>node_def_name = ''x'', keys = [[''p'']], keys_by_input_name = [],
       keys_by_output_name = [(''result'', [''p''])], group_names_by_key = [([''p''], ''default'')],
       asset_deps = [([''p''], [])], partitions_def = None, resource_defs = [],
       can_subset = False\<rparr>,
      \<lparr>node_def_name = ''y'', keys = [[''q'']], keys_by_input_name = [],
       keys_by_output_name = [(''result'', [''q''])], group_names_by_key = [([''q''], ''default'')],
       asset_deps = [([''q''], [])], partitions_def = Some (7::nat), resource_defs = [],
       can_subset = False\<rparr> :: (nat, nat) assets_definition] = Inr (Some 7) \<and>
   (\<exists>k1 k2. build_job_partitions_from_assets
     [\<lparr>node_def_name = ''x'', keys = [[''p'']], keys_by_input_name = [],
       keys_by_output_name = [(''result'', [''p''])], group_names_by_key = [([''p''], ''default'')],
       asset_deps = [([''p''], [])], partitions_def = Some (3::nat), resource_defs = [],
       can_subset = False\<rparr>,
      \<lparr>node_def_name = ''y'', keys = [[''q'']], keys_by_input_name = [],
       keys_by_output_name = [(''result'', [''q''])], group_names_by_key = [([''q''], ''default'')],
       asset_deps = [([''q''], [])], partitions_def = Some (7::nat), resource_defs = [],
       can_subset = False\<rparr> :: (nat, nat) assets_definition] =
      Inl (DagsterInvalidDefinitionError (PartitionsDefsDiffer k1 k2)))"
proof (intro conjI)
  let ?x = "\<lambda>pd. \<lparr>node_def_name = ''x'', keys = [[''p'']], keys_by_input_name = [],
       keys_by_output_name = [(''result'', [''p''])], group_names_by_key = [([''p''], ''default'')],
       asset_deps = [([''p''], [])], partitions_def = pd, resource_defs = [],
       can_subset = False\<rparr> :: (nat, nat) assets_definition"
  let ?y = "\<lparr>node_def_name = ''y'', keys = [[''q'']], keys_by_input_name = [],
       keys_by_output_name = [(''result'', [''q''])], group_names_by_key = [([''q''], ''default'')],
       asset_deps = [([''q''], [])], partitions_def = Some (7::nat), resource_defs = [],
       can_subset = False\<rparr> :: (nat, nat) assets_definition"
  show "build_job_partitions_from_assets [?x None] = Inr None"
    using partition_policy_unifier [of "[?x None]"] by simp
  show "build_job_partitions_from_assets [?x None, ?y] = Inr (Some 7)"
    using partition_policy_unifier [of "[?x None, ?y]"] by simp
  show "\<exists>k1 k2. build_job_partitions_from_assets [?x (Some 3), ?y] =
      Inl (DagsterInvalidDefinitionError (PartitionsDefsDiffer k1 k2))"
    using partition_policy_unifier [of "[?x (Some 3), ?y]"] by auto
qed

section \<open>Proofs: resource conformance checker\<close>

lemma all_assets_loop_flat:
  "all_assets_resources_loop t xs = asset_resources_loop t (concat (map resource_defs_of xs))"
proof -
  have app: "asset_resources_loop t (bs @ cs) =
      (case asset_resources_loop t bs of Inl e \<Rightarrow> Inl e | Inr t' \<Rightarrow> asset_resources_loop t' cs)"
    for t :: "(string, 'r) dict" and bs cs
    by (induction t bs rule: asset_resources_loop.induct) (auto simp: Let_def)
  show ?thesis
    by (induction xs arbitrary: t) (auto simp: app split: sum.splits)
qed

lemma asset_resources_loop_Inr:
  assumes "asset_resources_loop t bs = Inr t'"
  shows "(\<forall>(k, r)\<in>set bs. map_of t' k = Some r)"
    and "(\<forall>k v. map_of t k = Some v \<longrightarrow> map_of t' k = Some v)"
    and "(\<forall>k v. map_of t' k = Some v \<longrightarrow> map_of t k = Some v \<or> (k, v) \<in> set bs)"
  using assms
proof (induction t bs rule: asset_resources_loop.induct)
  case (1 t)
  { case 1 then show ?case by simp
  next case 2 then show ?case by simp
  next case 3 then show ?case by simp }
next
  case (2 t k r rest)
  let ?tbl = "if k \<notin> fst ` set t then AList.update k r t else t"
  { case 1
    from 1 have ok: "map_of ?tbl k = Some r" and rec: "asset_resources_loop ?tbl rest = Inr t'"
      by (auto simp: Let_def split: if_splits)
    from "2.IH"(1) [OF refl _ rec] ok have a: "\<forall>(k, r)\<in>set rest. map_of t' k = Some r" by auto
    from "2.IH"(2) [OF refl _ rec] ok have "map_of t' k = Some r" by auto
    with a show ?case by simp
  next
    case 2
    from 2 have ok: "map_of ?tbl k = Some r" and rec: "asset_resources_loop ?tbl rest = Inr t'"
      by (auto simp: Let_def split: if_splits)
    from "2.IH"(2) [OF refl _ rec] ok
    have b: "\<forall>k' v. map_of ?tbl k' = Some v \<longrightarrow> map_of t' k' = Some v" by auto
    have "map_of t k' = Some v \<Longrightarrow> map_of ?tbl k' = Some v" for k' v
      by (auto simp: update_conv' dest: map_of_SomeD intro: rev_image_eqI)
    with b show ?case by blast
  next
    case 3
    from 3 have ok: "map_of ?tbl k = Some r" and rec: "asset_resources_loop ?tbl rest = Inr t'"
      by (auto simp: Let_def split: if_splits)
    from "2.IH"(3) [OF refl _ rec] ok
    have c: "\<forall>k' v. map_of t' k' = Some v \<longrightarrow> map_of ?tbl k' = Some v \<or> (k', v) \<in> set rest"
      by auto
    have "map_of ?tbl k' = Some v \<Longrightarrow> map_of t k' = Some v \<or> (k', v) = (k, r)" for k' v
      by (auto simp: update_conv' split: if_splits)
    with c show ?case by fastforce
  }
qed

lemma asset_resources_loop_Inl:
  assumes "asset_resources_loop t bs = Inl e"
  shows "\<exists>k r r'. e = DagsterInvalidDefinitionError (ConflictingAssetResources k) \<and>
           (k, r) \<in> set bs \<and> r \<noteq> r' \<and> (map_of t k = Some r' \<or> (k, r') \<in> set bs)"
  using assms
proof (induction t bs rule: asset_resources_loop.induct)
  case (1 t)
  then show ?case by simp
next
  case (2 t k r rest)
  let ?tbl = "if k \<notin> fst ` set t then AList.update k r t else t"
  show ?case
  proof (cases "map_of ?tbl k = Some r")
    case True
    with 2 have rec: "asset_resources_loop ?tbl rest = Inl e" by (auto simp: Let_def)
    from "2.IH" [OF refl _ rec] True
    obtain k' s s' where h: "e = DagsterInvalidDefinitionError (ConflictingAssetResources k')"
      "(k', s) \<in> set rest" "s \<noteq> s'" "map_of ?tbl k' = Some s' \<or> (k', s') \<in> set rest"
      by auto
    have "map_of ?tbl k' = Some s' \<Longrightarrow> map_of t k' = Some s' \<or> (k', s') = (k, r)"
      by (auto simp: update_conv' split: if_splits)
    with h show ?thesis by fastforce
  next
    case False
    then have kin: "k \<in> fst ` set t" by (auto simp: update_conv' split: if_splits)
    then obtain r' where r': "map_of t k = Some r'"
      by (metis domD dom_map_of_conv_image_fst)
    with False kin have "r \<noteq> r'" by auto
    moreover from False 2 have "e = DagsterInvalidDefinitionError (ConflictingAssetResources k)"
      by (auto simp: Let_def)
    ultimately show ?thesis using r' by auto
  qed
qed

lemma job_resources_loop_Inr:
  "job_resources_loop t rd = Inr () \<longleftrightarrow>
     (\<forall>(k, r)\<in>set rd. k = ''io_manager'' \<or> map_of t k = None \<or> map_of t k = Some r)"
  by (induction t rd rule: job_resources_loop.induct)
     (auto simp: map_of_eq_None_iff)

lemma job_resources_loop_Inl:
  "job_resources_loop t rd = Inl e \<Longrightarrow>
     \<exists>k. k \<noteq> ''io_manager'' \<and> e = DagsterInvalidDefinitionError (JobResourceConflict k)"
  by (induction t rd rule: job_resources_loop.induct) (auto split: if_splits)

lemma set_all_bindings:
  "(k, r) \<in> set (concat (map resource_defs_of xs)) \<longleftrightarrow>
     (\<exists>x\<in>set xs. (k, r) \<in> set (resource_defs_of x))"
  by auto

lemma assets_conflict_raises:
  assumes "x \<in> set xs" "y \<in> set xs"
    and "(k, r1) \<in> set (resource_defs_of x)" "(k, r2) \<in> set (resource_defs_of y)" "r1 \<noteq> r2"
  shows "\<exists>k'. all_assets_resources_loop [] xs =
           Inl (DagsterInvalidDefinitionError (ConflictingAssetResources k'))"
proof (cases "all_assets_resources_loop [] xs")
  case (Inl e)
  then have "asset_resources_loop [] (concat (map resource_defs_of xs)) = Inl e"
    by (simp add: all_assets_loop_flat)
  from asset_resources_loop_Inl [OF this] Inl show ?thesis by auto
next
  case (Inr t')
  then have ok: "asset_resources_loop [] (concat (map resource_defs_of xs)) = Inr t'"
    by (simp add: all_assets_loop_flat)
  from assms have "(k, r1) \<in> set (concat (map resource_defs_of xs))"
    and "(k, r2) \<in> set (concat (map resource_defs_of xs))"
    unfolding set_all_bindings by blast+
  with asset_resources_loop_Inr(1) [OF ok] have "map_of t' k = Some r1" "map_of t' k = Some r2"
    by blast+
  with assms(5) show ?thesis by simp
qed

lemma no_assets_conflict_table:
  assumes "\<not> (\<exists>x\<in>set xs. \<exists>y\<in>set xs. \<exists>k r1 r2.
             (k, r1) \<in> set (resource_defs_of x) \<and> (k, r2) \<in> set (resource_defs_of y) \<and> r1 \<noteq> r2)"
  shows "\<exists>t. all_assets_resources_loop [] xs = Inr t \<and>
           (\<forall>k r. map_of t k = Some r \<longleftrightarrow> (\<exists>x\<in>set xs. (k, r) \<in> set (resource_defs_of x)))"
proof (cases "all_assets_resources_loop [] xs")
  case (Inl e)
  then have "asset_resources_loop [] (concat (map resource_defs_of xs)) = Inl e"
    by (simp add: all_assets_loop_flat)
  from asset_resources_loop_Inl [OF this]
  obtain k r r' where "(k, r) \<in> set (concat (map resource_defs_of xs))" "r \<noteq> r'"
    "(k, r') \<in> set (concat (map resource_defs_of xs))" by auto
  then have "\<exists>x\<in>set xs. \<exists>y\<in>set xs. \<exists>k r1 r2.
             (k, r1) \<in> set (resource_defs_of x) \<and> (k, r2) \<in> set (resource_defs_of y) \<and> r1 \<noteq> r2"
    unfolding set_all_bindings by blast
  with assms show ?thesis by blast
next
  case (Inr t)
  then have ok: "asset_resources_loop [] (concat (map resource_defs_of xs)) = Inr t"
    by (simp add: all_assets_loop_flat)
  have "map_of t k = Some r \<longleftrightarrow> (\<exists>x\<in>set xs. (k, r) \<in> set (resource_defs_of x))" for k r
    using asset_resources_loop_Inr(1) [OF ok] asset_resources_loop_Inr(3) [OF ok]
    unfolding set_all_bindings [symmetric] by fastforce
  with Inr show ?thesis by simp
qed

text \<open>
  C6. The resource conformance checker raises a definition error whenever two
  computations or source artifacts bind the same resource key to different resource
  objects; when no two of them do, it raises a definition error if a job-level
  binding of a key other than \<open>io_manager\<close> differs from the object an asset binds to
  that key, and it succeeds otherwise, so that a differing job-level \<open>io_manager\<close>
  is accepted.
\<close>

theorem resource_conformance_checker:
  fixes assets :: "('p, 'r) assets_definition list"
  shows
  "((\<exists>x\<in>set (all_assets_of assets source_assets).
     \<exists>y\<in>set (all_assets_of assets source_assets). \<exists>k r1 r2.
        (k, r1) \<in> set (resource_defs_of x) \<and> (k, r2) \<in> set (resource_defs_of y) \<and> r1 \<noteq> r2) \<longrightarrow>
    (\<exists>k. ensure_resources_dont_conflict assets source_assets job_resource_defs =
            Inl (DagsterInvalidDefinitionError (ConflictingAssetResources k)))) \<and>
   (\<not> (\<exists>x\<in>set (all_assets_of assets source_assets).
        \<exists>y\<in>set (all_assets_of assets source_assets). \<exists>k r1 r2.
        (k, r1) \<in> set (resource_defs_of x) \<and> (k, r2) \<in> set (resource_defs_of y) \<and> r1 \<noteq> r2) \<and>
    (\<exists>x\<in>set (all_assets_of assets source_assets). \<exists>k r1 r2. k \<noteq> ''io_manager'' \<and>
        (k, r1) \<in> set (resource_defs_of x) \<and> (k, r2) \<in> set job_resource_defs \<and> r1 \<noteq> r2) \<longrightarrow>
    (\<exists>k. k \<noteq> ''io_manager'' \<and>
          ensure_resources_dont_conflict assets source_assets job_resource_defs =
            Inl (DagsterInvalidDefinitionError (JobResourceConflict k)))) \<and>
   (\<not> (\<exists>x\<in>set (all_assets_of assets source_assets).
        \<exists>y\<in>set (all_assets_of assets source_assets). \<exists>k r1 r2.
        (k, r1) \<in> set (resource_defs_of x) \<and> (k, r2) \<in> set (resource_defs_of y) \<and> r1 \<noteq> r2) \<and>
    \<not> (\<exists>x\<in>set (all_assets_of assets source_assets). \<exists>k r1 r2. k \<noteq> ''io_manager'' \<and>
        (k, r1) \<in> set (resource_defs_of x) \<and> (k, r2) \<in> set job_resource_defs \<and> r1 \<noteq> r2) \<longrightarrow>
    ensure_resources_dont_conflict assets source_assets job_resource_defs = Inr ())"
proof (intro conjI impI)
  let ?all = "all_assets_of assets source_assets"
  assume "\<exists>x\<in>set ?all. \<exists>y\<in>set ?all. \<exists>k r1 r2.
        (k, r1) \<in> set (resource_defs_of x) \<and> (k, r2) \<in> set (resource_defs_of y) \<and> r1 \<noteq> r2"
  then obtain x y k r1 r2 where "x \<in> set ?all" "y \<in> set ?all"
    "(k, r1) \<in> set (resource_defs_of x)" "(k, r2) \<in> set (resource_defs_of y)" "r1 \<noteq> r2"
    by blast
  from assets_conflict_raises [OF this]
  show "\<exists>k. ensure_resources_dont_conflict assets source_assets job_resource_defs =
            Inl (DagsterInvalidDefinitionError (ConflictingAssetResources k))"
    by (auto simp: ensure_resources_dont_conflict_def)
next
  let ?all = "all_assets_of assets source_assets"
  assume h: "\<not> (\<exists>x\<in>set ?all. \<exists>y\<in>set ?all. \<exists>k r1 r2.
        (k, r1) \<in> set (resource_defs_of x) \<and> (k, r2) \<in> set (resource_defs_of y) \<and> r1 \<noteq> r2) \<and>
    (\<exists>x\<in>set ?all. \<exists>k r1 r2. k \<noteq> ''io_manager'' \<and>
        (k, r1) \<in> set (resource_defs_of x) \<and> (k, r2) \<in> set job_resource_defs \<and> r1 \<noteq> r2)"
  then have nc: "\<not> (\<exists>x\<in>set ?all. \<exists>y\<in>set ?all. \<exists>k r1 r2.
        (k, r1) \<in> set (resource_defs_of x) \<and> (k, r2) \<in> set (resource_defs_of y) \<and> r1 \<noteq> r2)"
    by (rule conjunct1)
  from no_assets_conflict_table [OF nc] obtain t where
    t: "all_assets_resources_loop [] ?all = Inr t"
    and tbl: "\<And>k r. map_of t k = Some r \<longleftrightarrow> (\<exists>x\<in>set ?all. (k, r) \<in> set (resource_defs_of x))"
    by blast
  from h obtain x k r1 r2 where c: "x \<in> set ?all" "k \<noteq> ''io_manager''"
    "(k, r1) \<in> set (resource_defs_of x)" "(k, r2) \<in> set job_resource_defs" "r1 \<noteq> r2"
    by blast
  then have "map_of t k = Some r1" using tbl by blast
  with c have "\<not> (\<forall>(k, r)\<in>set job_resource_defs.
      k = ''io_manager'' \<or> map_of t k = None \<or> map_of t k = Some r)" by force
  then have "job_resources_loop t job_resource_defs \<noteq> Inr ()"
    by (simp only: job_resources_loop_Inr not_False_eq_True)
  then obtain e where "job_resources_loop t job_resource_defs = Inl e"
    by (cases "job_resources_loop t job_resource_defs") auto
  with job_resources_loop_Inl [OF this] t
  show "\<exists>k. k \<noteq> ''io_manager'' \<and>
          ensure_resources_dont_conflict assets source_assets job_resource_defs =
            Inl (DagsterInvalidDefinitionError (JobResourceConflict k))"
    by (auto simp: ensure_resources_dont_conflict_def)
next
  let ?all = "all_assets_of assets source_assets"
  assume h: "\<not> (\<exists>x\<in>set ?all. \<exists>y\<in>set ?all. \<exists>k r1 r2.
        (k, r1) \<in> set (resource_defs_of x) \<and> (k, r2) \<in> set (resource_defs_of y) \<and> r1 \<noteq> r2) \<and>
    \<not> (\<exists>x\<in>set ?all. \<exists>k r1 r2. k \<noteq> ''io_manager'' \<and>
        (k, r1) \<in> set (resource_defs_of x) \<and> (k, r2) \<in> set job_resource_defs \<and> r1 \<noteq> r2)"
  then have nc: "\<not> (\<exists>x\<in>set ?all. \<exists>y\<in>set ?all. \<exists>k r1 r2.
        (k, r1) \<in> set (resource_defs_of x) \<and> (k, r2) \<in> set (resource_defs_of y) \<and> r1 \<noteq> r2)"
    by (rule conjunct1)
  from no_assets_conflict_table [OF nc] obtain t where
    t: "all_assets_resources_loop [] ?all = Inr t"
    and tbl: "\<And>k r. map_of t k = Some r \<longleftrightarrow> (\<exists>x\<in>set ?all. (k, r) \<in> set (resource_defs_of x))"
    by blast
  have "k = ''io_manager'' \<or> map_of t k = None \<or> map_of t k = Some r"
    if "(k, r) \<in> set job_resource_defs" for k r
  proof (cases "map_of t k")
    case None
    then show ?thesis by simp
  next
    case (Some v)
    then obtain x where "x \<in> set ?all" "(k, v) \<in> set (resource_defs_of x)" using tbl by blast
    with h that have "k = ''io_manager'' \<or> v = r" by blast
    with Some show ?thesis by auto
  qed
  then have "job_resources_loop t job_resource_defs = Inr ()"
    unfolding job_resources_loop_Inr by blast
  with t show "ensure_resources_dont_conflict assets source_assets job_resource_defs = Inr ()"
    by (simp add: ensure_resources_dont_conflict_def)
qed

theorem resource_conformance_checker_witness:
  "(\<exists>k. ensure_resources_dont_conflict
      [(single_asset ''x'' [''p''] [])\<lparr>resource_defs := [(''db'', 1)]\<rparr>,
       (single_asset ''y'' [''q''] [])\<lparr>resource_defs := [(''db'', 2)]\<rparr>] [] [] =
      Inl (DagsterInvalidDefinitionError (ConflictingAssetResources k))) \<and>
   (\<exists>k. k \<noteq> ''io_manager'' \<and> ensure_resources_dont_conflict
      [(single_asset ''x'' [''p''] [])\<lparr>resource_defs := [(''db'', 1)]\<rparr>] [] [(''db'', 2)] =
      Inl (DagsterInvalidDefinitionError (JobResourceConflict k))) \<and>
   ensure_resources_dont_conflict
      [(single_asset ''x'' [''p''] [])\<lparr>resource_defs := [(''db'', 1), (''io_manager'', 5)]\<rparr>,
       (single_asset ''y'' [''q''] [])\<lparr>resource_defs := [(''db'', 1)]\<rparr>]
      [\<lparr>source_key = [''s''], source_group_name = ''default'',
        source_resource_defs = [(''io_manager'', 5)]\<rparr>]
      [(''io_manager'', 9), (''db'', 1)] = Inr ()"
proof (intro conjI)
  show "\<exists>k. ensure_resources_dont_conflict
      [(single_asset ''x'' [''p''] [])\<lparr>resource_defs := [(''db'', 1)]\<rparr>,
       (single_asset ''y'' [''q''] [])\<lparr>resource_defs := [(''db'', 2)]\<rparr>] [] [] =
      Inl (DagsterInvalidDefinitionError (ConflictingAssetResources k))"
    using resource_conformance_checker
      [of "[(single_asset ''x'' [''p''] [])\<lparr>resource_defs := [(''db'', 1)]\<rparr>,
            (single_asset ''y'' [''q''] [])\<lparr>resource_defs := [(''db'', 2)]\<rparr>]" "[]" "[]"]
    by (simp add: all_assets_of_def single_asset_def)
  show "\<exists>k. k \<noteq> ''io_manager'' \<and> ensure_resources_dont_conflict
      [(single_asset ''x'' [''p''] [])\<lparr>resource_defs := [(''db'', 1)]\<rparr>] [] [(''db'', 2)] =
      Inl (DagsterInvalidDefinitionError (JobResourceConflict k))"
    using resource_conformance_checker
      [of "[(single_asset ''x'' [''p''] [])\<lparr>resource_defs := [(''db'', 1)]\<rparr>]" "[]"
          "[(''db'', 2)]"]
    by (simp add: all_assets_of_def single_asset_def)
  let ?A = "[(single_asset ''x'' [''p''] [])\<lparr>resource_defs := [(''db'', 1), (''io_manager'', 5)]\<rparr>,
            (single_asset ''y'' [''q''] [])\<lparr>resource_defs := [(''db'', 1)]\<rparr>]"
  let ?S = "[\<lparr>source_key = [''s''], source_group_name = ''default'',
             source_resource_defs = [(''io_manager'', 5 :: nat)]\<rparr>]"
  let ?J = "[(''io_manager'', 9 :: nat), (''db'', 1)]"
  have h1: "\<not> (\<exists>x\<in>set (all_assets_of ?A ?S). \<exists>y\<in>set (all_assets_of ?A ?S). \<exists>k r1 r2.
        (k, r1) \<in> set (resource_defs_of x) \<and> (k, r2) \<in> set (resource_defs_of y) \<and> r1 \<noteq> r2)"
    by (auto simp: all_assets_of_def single_asset_def)
  have h2: "\<not> (\<exists>x\<in>set (all_assets_of ?A ?S). \<exists>k r1 r2. k \<noteq> ''io_manager'' \<and>
        (k, r1) \<in> set (resource_defs_of x) \<and> (k, r2) \<in> set ?J \<and> r1 \<noteq> r2)"
    by (auto simp: all_assets_of_def single_asset_def)
  from resource_conformance_checker [of ?A ?S ?J] h1 h2
  show "ensure_resources_dont_conflict ?A ?S ?J = Inr ()" by blast
qed

section \<open>Proofs: merged resource table\<close>

lemma map_of_fold_update:
  "map_of (fold (\<lambda>(k, v) d. AList.update k v d) bs d) k' =
     (case map_of (rev bs) k' of Some v \<Rightarrow> Some v | None \<Rightarrow> map_of d k')"
proof (induction bs arbitrary: d)
  case Nil
  then show ?case by simp
next
  case (Cons b bs)
  obtain k v where b: "b = (k, v)" by (cases b)
  show ?case
    by (simp add: b Cons.IH update_conv' map_add_def split: option.splits)
qed







section \<open>Proofs: unit identifiers\<close>

text \<open>
  C4. The computations are sorted by their sorted output keys, the first one with a
  base name keeps it and a later one gets the suffix with its count; but the
  identifiers are not pairwise distinct for every input. Three computations with the
  base names \<open>foo\<close>, \<open>foo\<close> and \<open>foo_2\<close> and the outputs \<open>a\<close>, \<open>b\<close> and \<open>c\<close>
  are named \<open>foo\<close>, \<open>foo_2\<close> and \<open>foo_2\<close>: the outputs \<open>b\<close> and \<open>c\<close> are both
  recorded under the unit \<open>foo_2\<close>, and the compiled graph has two units for the
  three computations, the second computation being overwritten.
\<close>

theorem unit_identifiers_collide:
  "sort_key (\<lambda>ad. sort (keys ad))
     [single_asset ''foo'' [''a''] [], single_asset ''foo'' [''b''] [],
      single_asset ''foo_2'' [''c''] []] =
     [single_asset ''foo'' [''a''] [], single_asset ''foo'' [''b''] [],
      single_asset ''foo_2'' [''c''] []] \<and>
   fold name_node
     [single_asset ''foo'' [''a''] [], single_asset ''foo'' [''b''] [],
      single_asset ''foo_2'' [''c''] []] ([], [], []) =
     ([(''foo'', 2), (''foo_2'', 1)],
      [(''foo'', single_asset ''foo'' [''a''] []), (''foo_2'', single_asset ''foo_2'' [''c''] [])],
      [([''a''], (''foo'', ''result'')), ([''b''], (''foo_2'', ''result'')),
       ([''c''], (''foo_2'', ''result''))]) \<and>
   build_node_deps
     [single_asset ''foo'' [''a''] [], single_asset ''foo'' [''b''] [],
      single_asset ''foo_2'' [''c''] []] [] =
     Inr ([(NodeName ''foo'', []), (NodeName ''foo_2'', [])],
          [(''foo'', single_asset ''foo'' [''a''] []),
           (''foo_2'', single_asset ''foo_2'' [''c''] [])],
          [])"
  by code_simp

section \<open>Proofs: what the compile depends on\<close>

lemma filter_same_key_singleton:
  assumes "distinct (map f xs)" "k \<in> set xs"
  shows "filter (\<lambda>x. f k = f x) xs = [k]"
  using assms
proof (induction xs)
  case Nil
  then show ?case by simp
next
  case (Cons a xs)
  show ?case
  proof (cases "a = k")
    case True
    with Cons.prems have "\<forall>x\<in>set xs. f k \<noteq> f x" by auto
    then have "filter (\<lambda>x. f k = f x) xs = []" by (simp add: filter_empty_conv)
    with True show ?thesis by simp
  next
    case False
    with Cons.prems have k: "k \<in> set xs" and d: "distinct (map f xs)" by auto
    from Cons.prems have "f a \<notin> f ` set xs" by simp
    with k have "f k \<noteq> f a" by (metis imageI)
    with Cons.IH [OF d k] show ?thesis by simp
  qed
qed

lemma sort_key_permutation:
  assumes "mset ys = mset xs" "distinct (map f xs)"
  shows "sort_key f ys = sort_key f xs"
proof (rule properties_for_sort_key)
  show "mset (sort_key f xs) = mset ys" using assms by simp
  show "sorted (map f (sort_key f xs))" by simp
  fix k
  assume "k \<in> set (sort_key f xs)"
  then have kx: "k \<in> set xs" by simp
  with assms have ky: "k \<in> set ys" by (metis mset_eq_setD)
  have "mset (map f ys) = mset (map f xs)" using assms by simp
  with assms have dy: "distinct (map f ys)" by (metis mset_eq_imp_distinct_iff)
  have "filter (\<lambda>x. f k = f x) (sort_key f xs) = sort_key f (filter (\<lambda>x. f k = f x) xs)"
    by (rule filter_sort)
  also have "\<dots> = [k]" by (simp add: filter_same_key_singleton [OF assms(2) kx])
  also have "\<dots> = filter (\<lambda>x. f k = f x) ys" by (simp add: filter_same_key_singleton [OF dy ky])
  finally show "filter (\<lambda>x. f k = f x) (sort_key f xs) = filter (\<lambda>x. f k = f x) ys" .
qed

text \<open>
  The order in which the computations are supplied has no effect on the result, the
  sorted output-key lists of the computations being pairwise different (every
  artifact key has one producer): the computations are sorted by these lists first.
\<close>

lemma build_node_deps_order_of_computations:
  fixes assets :: "('p, 'r) assets_definition list"
  assumes "mset assets' = mset assets"
    and "distinct (map (\<lambda>ad. sort (keys ad)) assets)"
  shows "build_node_deps assets' source_assets = build_node_deps assets source_assets"
  by (simp add: build_node_deps_def sort_key_permutation [OF assms])

text \<open>
  C8. The compile is not a function of the definitions supplied. The computation
  \<open>M\<close> produces the keys \<open>x/t\<close> (output \<open>ox\<close>) and \<open>y/t\<close> (output \<open>oy\<close>) in one
  group, and the computation \<open>down\<close> of that group has the input \<open>t\<close>. The lookup
  table of the resolver is filled in the iteration order of the key set of \<open>M\<close>, the
  later key overwriting the earlier one under (\<open>default\<close>, \<open>t\<close>): when the set is
  iterated as \<open>x/t\<close>, \<open>y/t\<close> the input is resolved to \<open>y/t\<close> and the edge of \<open>down\<close>
  goes to the output \<open>oy\<close>; when the same set is iterated as \<open>y/t\<close>, \<open>x/t\<close> the
  input is resolved to \<open>x/t\<close> and the edge goes to \<open>ox\<close>. The unit identifiers are the
  same in both runs, the dependency edges and the input handle map are not; both
  unit graphs are acyclic.
\<close>

theorem compile_depends_on_key_iteration_order:
  "build_node_deps
     [two_outputs_one_name [[''x'', ''t''], [''y'', ''t'']],
      single_asset ''down'' [''z''] [(''t'', [''t''])]] [] =
   Inr ([(NodeName ''M'', []),
         (NodeName ''down'', [(''t'', DependencyDefinition ''M'' ''oy'')])],
        [(''M'', two_outputs_one_name [[''x'', ''t''], [''y'', ''t'']]),
         (''down'', single_asset ''down'' [''z''] [(''t'', [''t''])])],
        [((''down'', ''t''), [''y'', ''t''])]) \<and>
   build_node_deps
     [two_outputs_one_name [[''y'', ''t''], [''x'', ''t'']],
      single_asset ''down'' [''z''] [(''t'', [''t''])]] [] =
   Inr ([(NodeName ''M'', []),
         (NodeName ''down'', [(''t'', DependencyDefinition ''M'' ''ox'')])],
        [(''M'', two_outputs_one_name [[''y'', ''t''], [''x'', ''t'']]),
         (''down'', single_asset ''down'' [''z''] [(''t'', [''t''])])],
        [((''down'', ''t''), [''x'', ''t''])]) \<and>
   has_cycles [(NodeName ''M'', []),
               (NodeName ''down'', [(''t'', DependencyDefinition ''M'' ''oy'')])] = Inr False \<and>
   has_cycles [(NodeName ''M'', []),
               (NodeName ''down'', [(''t'', DependencyDefinition ''M'' ''ox'')])] = Inr False"
  by code_simp

section \<open>Proofs: key resolver\<close>

lemma update_fresh: "k \<notin> fst ` set d \<Longrightarrow> AList.update k v d = d @ [(k, v)]"
  by (induction d) auto

lemma fold_update_distinct:
  "distinct (map fst (d @ ps)) \<Longrightarrow> fold (\<lambda>(k, v). AList.update k v) ps d = d @ ps"
proof (induction ps arbitrary: d)
  case Nil
  then show ?case by simp
next
  case (Cons p ps)
  obtain k v where p: "p = (k, v)" by (cases p)
  from Cons.prems p have fresh: "k \<notin> fst ` set d" by auto
  from Cons.prems p have "distinct (map fst ((d @ [(k, v)]) @ ps))" by simp
  from Cons.IH [OF this] show ?case by (simp add: p update_fresh [OF fresh])
qed

lemma for_loop_add_asset_key:
  assumes "\<forall>k\<in>set ks. k \<noteq> [] \<and> k \<in> fst ` set (group_names_by_key ad)"
  shows "for_loop (add_asset_key ad) ks tbl =
     Inr (fold (\<lambda>(gk, v). AList.update gk v)
            (map (\<lambda>key. ((the (map_of (group_names_by_key ad) key), last key), key)) ks) tbl)"
  using assms
proof (induction ks arbitrary: tbl)
  case Nil
  then show ?case by simp
next
  case (Cons k ks)
  from Cons.prems have "map_of (group_names_by_key ad) k \<noteq> None"
    by (simp add: map_of_eq_None_iff)
  then obtain g where g: "map_of (group_names_by_key ad) k = Some g" by blast
  from Cons.prems have "k \<noteq> []" by simp
  with g have "add_asset_key ad k tbl = Inr (AList.update (g, last k) k tbl)"
    by (simp add: add_asset_key_def)
  moreover from Cons.prems have "\<forall>k\<in>set ks. k \<noteq> [] \<and> k \<in> fst ` set (group_names_by_key ad)"
    by simp
  ultimately show ?case using g by (simp add: Cons.IH)
qed

lemma for_loop_assets_table:
  assumes "\<forall>ad\<in>set as. \<forall>k\<in>set (keys ad). k \<noteq> [] \<and> k \<in> fst ` set (group_names_by_key ad)"
  shows "for_loop (\<lambda>ad. for_loop (add_asset_key ad) (keys ad)) as tbl =
     Inr (fold (\<lambda>(gk, v). AList.update gk v)
            (concat (map (\<lambda>ad. map (\<lambda>key. ((the (map_of (group_names_by_key ad) key), last key),
                                           key)) (keys ad)) as)) tbl)"
  using assms
proof (induction as arbitrary: tbl)
  case Nil
  then show ?case by simp
next
  case (Cons a as)
  from Cons.prems have "\<forall>k\<in>set (keys a). k \<noteq> [] \<and> k \<in> fst ` set (group_names_by_key a)"
    by simp
  note first = for_loop_add_asset_key [OF this]
  from Cons.prems
  have "\<forall>ad\<in>set as. \<forall>k\<in>set (keys ad). k \<noteq> [] \<and> k \<in> fst ` set (group_names_by_key ad)"
    by simp
  from Cons.IH [OF this] first show ?case by simp
qed

lemma for_loop_sources_table:
  assumes "\<forall>sa\<in>set ss. source_key sa \<noteq> []"
  shows "for_loop add_source_asset ss tbl =
     Inr (fold (\<lambda>(gk, v). AList.update gk v)
            (map (\<lambda>sa. ((source_group_name sa, last (source_key sa)), source_key sa)) ss) tbl)"
  using assms
  by (induction ss arbitrary: tbl) (simp_all add: add_source_asset_def)

lemma table_is_lookup_pairs:
  assumes "\<forall>ad\<in>set as. \<forall>k\<in>set (keys ad). k \<noteq> [] \<and> k \<in> fst ` set (group_names_by_key ad)"
    and "\<forall>sa\<in>set ss. source_key sa \<noteq> []"
    and "distinct (map fst (lookup_pairs as ss))"
  shows "asset_keys_by_group_and_name as ss = Inr (lookup_pairs as ss)"
proof -
  have "asset_keys_by_group_and_name as ss =
      Inr (fold (\<lambda>(gk, v). AList.update gk v) (lookup_pairs as ss) [])"
    by (simp add: asset_keys_by_group_and_name_def for_loop_assets_table [OF assms(1)]
        for_loop_sources_table [OF assms(2)] lookup_pairs_def)
  moreover have "fold (\<lambda>(gk, v). AList.update gk v) (lookup_pairs as ss) [] =
      [] @ lookup_pairs as ss"
    by (rule fold_update_distinct) (simp add: assms(3))
  ultimately show ?thesis by simp
qed

lemma map_snd_lookup_pairs:
  "map snd (lookup_pairs as ss) = produced_and_source_keys as ss"
  by (simp add: lookup_pairs_def produced_and_source_keys_def map_concat comp_def)

lemma resolve_key_resolves_to:
  "resolve_key (lookup_pairs as ss) (map snd (lookup_pairs as ss)) (group_of ad) k =
     resolves_to as ss ad k"
proof (cases "group_names_by_key ad")
  case Nil
  then show ?thesis
    by (simp add: resolve_key_def resolves_to_def group_of_def map_snd_lookup_pairs)
next
  case (Cons p ps)
  then show ?thesis
    by (cases p; cases ps)
      (simp_all add: resolve_key_def resolves_to_def group_of_def map_snd_lookup_pairs)
qed

lemma resolve_input_eq:
  assumes "k \<noteq> []" "keys ad = k0 # ks"
  shows "resolve_input tbl ak ad g (n, k) d =
     (case resolve_key tbl ak g k of
        Some key \<Rightarrow> Inr (AList.update n key d)
      | None \<Rightarrow> Inl (DagsterInvalidDefinitionError (InputNotProduced k k0)))"
  using assms
  by (simp add: resolve_input_def resolve_key_def next_iter_def split: option.splits)

lemma resolve_loop:
  assumes "\<forall>(n, k)\<in>set ins. k \<noteq> []" "keys ad = k0 # ks" "distinct (map fst ins)"
  shows "case for_loop (resolve_input tbl ak ad g) ins d of
           Inr d' \<Rightarrow>
             (\<forall>(n, k)\<in>set ins. \<exists>key. resolve_key tbl ak g k = Some key \<and> map_of d' n = Some key) \<and>
             (\<forall>n. n \<notin> fst ` set ins \<longrightarrow> map_of d' n = map_of d n)
         | Inl e \<Rightarrow>
             \<exists>(n, k)\<in>set ins. resolve_key tbl ak g k = None \<and>
               e = DagsterInvalidDefinitionError (InputNotProduced k k0)"
  using assms(1,3)
proof (induction ins arbitrary: d)
  case Nil
  then show ?case by simp
next
  case (Cons p ins)
  obtain n k where p: "p = (n, k)" by (cases p)
  from Cons.prems p have k: "k \<noteq> []" by simp
  note step = resolve_input_eq [OF k assms(2), of tbl ak g n]
  show ?case
  proof (cases "resolve_key tbl ak g k")
    case None
    then show ?thesis by (simp add: p step)
  next
    case (Some key)
    let ?d1 = "AList.update n key d"
    from Cons.prems p have rest: "\<forall>(n, k)\<in>set ins. k \<noteq> []" "distinct (map fst ins)"
      and fresh: "n \<notin> fst ` set ins" by auto
    have loop: "for_loop (resolve_input tbl ak ad g) (p # ins) d =
        for_loop (resolve_input tbl ak ad g) ins ?d1"
      by (simp add: p step Some)
    show ?thesis
    proof (cases "for_loop (resolve_input tbl ak ad g) ins ?d1")
      case (Inl e)
      with Cons.IH [OF rest, of ?d1] loop show ?thesis by auto
    next
      case (Inr d')
      with Cons.IH [OF rest, of ?d1]
      have a: "\<forall>(n, k)\<in>set ins. \<exists>key. resolve_key tbl ak g k = Some key \<and> map_of d' n = Some key"
        and b: "\<forall>m. m \<notin> fst ` set ins \<longrightarrow> map_of d' m = map_of ?d1 m" by auto
      from b fresh have "map_of d' n = Some key" by (simp add: update_conv')
      moreover from b have "\<forall>m. m \<notin> fst ` set (p # ins) \<longrightarrow> map_of d' m = map_of d m"
        by (simp add: p update_conv')
      ultimately show ?thesis using a Some loop Inr by (simp add: p)
    qed
  qed
qed

lemma resolve_all:
  assumes "\<forall>ad\<in>set as. keys ad \<noteq> [] \<and> distinct (map fst (keys_by_input_name ad)) \<and>
             (\<forall>(n, k)\<in>set (keys_by_input_name ad). k \<noteq> [])"
  shows "case for_loop (\<lambda>assets_def result.
                      case resolve_assets_def tbl (map snd tbl) assets_def of
                        Inl e \<Rightarrow> Inl e
                      | Inr dep_keys_by_input_name \<Rightarrow>
                          Inr (result @ [(assets_def, dep_keys_by_input_name)])) as acc of
           Inr res \<Rightarrow>
             \<exists>new. res = acc @ new \<and> map fst new = as \<and>
               (\<forall>(ad, dk)\<in>set new. \<forall>(n, k)\<in>set (keys_by_input_name ad).
                  \<exists>key. resolve_key tbl (map snd tbl) (group_of ad) k = Some key \<and>
                        map_of dk n = Some key)
         | Inl e \<Rightarrow>
             \<exists>ad\<in>set as. \<exists>(n, k)\<in>set (keys_by_input_name ad).
               resolve_key tbl (map snd tbl) (group_of ad) k = None \<and>
               e = DagsterInvalidDefinitionError (InputNotProduced k (hd (keys ad)))"
    (is "case for_loop ?B as acc of Inr res \<Rightarrow> ?R as acc res | Inl e \<Rightarrow> ?E as e")
  using assms
proof (induction as arbitrary: acc)
  case Nil
  then show ?case by simp
next
  case (Cons a as)
  from Cons.prems obtain k0 ks where ka: "keys a = k0 # ks" by (cases "keys a") auto
  from Cons.prems have ins: "\<forall>(n, k)\<in>set (keys_by_input_name a). k \<noteq> []"
    and dist: "distinct (map fst (keys_by_input_name a))" by auto
  from Cons.prems have rest: "\<forall>ad\<in>set as. keys ad \<noteq> [] \<and>
      distinct (map fst (keys_by_input_name ad)) \<and> (\<forall>(n, k)\<in>set (keys_by_input_name ad). k \<noteq> [])"
    by simp
  note one = resolve_loop [OF ins ka dist, of tbl "map snd tbl" "group_of a" "[]"]
  show ?case
  proof (cases "resolve_assets_def tbl (map snd tbl) a")
    case (Inl e)
    with one have "\<exists>(n, k)\<in>set (keys_by_input_name a).
        resolve_key tbl (map snd tbl) (group_of a) k = None \<and>
        e = DagsterInvalidDefinitionError (InputNotProduced k (hd (keys a)))"
      by (simp add: resolve_assets_def_def ka)
    with Inl show ?thesis by simp
  next
    case (Inr dk)
    with one have good: "\<forall>(n, k)\<in>set (keys_by_input_name a).
        \<exists>key. resolve_key tbl (map snd tbl) (group_of a) k = Some key \<and> map_of dk n = Some key"
      by (simp add: resolve_assets_def_def)
    have loop: "for_loop ?B (a # as) acc = for_loop ?B as (acc @ [(a, dk)])"
      by (simp add: Inr)
    show ?thesis
    proof (cases "for_loop ?B as (acc @ [(a, dk)])")
      case (Inl e)
      with Cons.IH [OF rest, of "acc @ [(a, dk)]"] loop show ?thesis by auto
    next
      case res: (Inr res)
      with Cons.IH [OF rest, of "acc @ [(a, dk)]"] obtain new where
        new: "res = (acc @ [(a, dk)]) @ new" "map fst new = as"
        "\<forall>(ad, dk)\<in>set new. \<forall>(n, k)\<in>set (keys_by_input_name ad).
           \<exists>key. resolve_key tbl (map snd tbl) (group_of ad) k = Some key \<and> map_of dk n = Some key"
        by auto
      have "?R (a # as) acc res"
      proof (intro exI [of _ "(a, dk) # new"] conjI)
        show "res = acc @ (a, dk) # new" using new(1) by simp
        show "map fst ((a, dk) # new) = a # as" using new(2) by simp
        show "\<forall>(ad, dk)\<in>set ((a, dk) # new). \<forall>(n, k)\<in>set (keys_by_input_name ad).
           \<exists>key. resolve_key tbl (map snd tbl) (group_of ad) k = Some key \<and> map_of dk n = Some key"
          using new(3) good by simp
      qed
      with loop res show ?thesis by simp
    qed
  qed
qed

text \<open>
  C1, as amended. Every path being non-empty, every output key having a group,
  every computation having an output key, the input names of a computation being
  distinct and no two produced or source keys sharing group and final path segment:
  the key resolver resolves every input of every computation, in order, to the
  input's declared key if that is a produced or source key, and otherwise, if the
  computation has exactly one output key, to the key the lookup table holds for
  that output's group and the input's final path segment; and if some input
  resolves in neither way, it raises a definition error that names such an input key
  and the first output key of its computation.
\<close>

theorem key_resolver:
  fixes assets :: "('p, 'r) assets_definition list"
  assumes "\<forall>ad\<in>set assets. keys ad \<noteq> [] \<and> distinct (map fst (keys_by_input_name ad)) \<and>
             (\<forall>(n, k)\<in>set (keys_by_input_name ad). k \<noteq> []) \<and>
             (\<forall>k\<in>set (keys ad). k \<noteq> [] \<and> k \<in> fst ` set (group_names_by_key ad))"
    and "\<forall>sa\<in>set source_assets. source_key sa \<noteq> []"
    and "distinct (map fst (lookup_pairs assets source_assets))"
  shows "case resolve_assets_def_deps assets source_assets of
           Inr result \<Rightarrow>
             map fst result = assets \<and>
             (\<forall>(ad, dep_keys)\<in>set result. \<forall>(n, k)\<in>set (keys_by_input_name ad).
                \<exists>key. resolves_to assets source_assets ad k = Some key \<and>
                      map_of dep_keys n = Some key)
         | Inl e \<Rightarrow>
             \<exists>ad\<in>set assets. \<exists>(n, k)\<in>set (keys_by_input_name ad).
               resolves_to assets source_assets ad k = None \<and>
               e = DagsterInvalidDefinitionError (InputNotProduced k (hd (keys ad)))"
proof -
  let ?tbl = "lookup_pairs assets source_assets"
  from assms(1)
  have wf1: "\<forall>ad\<in>set assets. \<forall>k\<in>set (keys ad). k \<noteq> [] \<and> k \<in> fst ` set (group_names_by_key ad)"
    and wf2: "\<forall>ad\<in>set assets. keys ad \<noteq> [] \<and> distinct (map fst (keys_by_input_name ad)) \<and>
             (\<forall>(n, k)\<in>set (keys_by_input_name ad). k \<noteq> [])"
    by blast+
  have tbl: "asset_keys_by_group_and_name assets source_assets = Inr ?tbl"
    by (rule table_is_lookup_pairs [OF wf1 assms(2,3)])
  from resolve_all [OF wf2, of ?tbl "[]"] show ?thesis
    by (simp add: resolve_assets_def_deps_def tbl resolve_key_resolves_to split: sum.splits)
qed

theorem key_resolver_witness:
  "(\<exists>result. resolve_assets_def_deps
       [single_asset ''up'' [''pre'', ''t''] [(''s'', [''s''])],
        single_asset ''down'' [''d''] [(''t'', [''t'']), (''u'', [''pre'', ''t''])]]
       [\<lparr>source_key = [''s''], source_group_name = ''default'', source_resource_defs = []\<rparr>] =
       Inr result \<and>
     map snd result = [[(''s'', [''s''])], [(''t'', [''pre'', ''t'']), (''u'', [''pre'', ''t''])]]) \<and>
   resolve_assets_def_deps
       [single_asset ''up'' [''pre'', ''t''] [],
        single_asset ''down'' [''d''] [(''t'', [''other''])]]
       ([] :: nat source_asset list) =
     Inl (DagsterInvalidDefinitionError (InputNotProduced [''other''] [''d'']))"
proof
  let ?A = "[single_asset ''up'' [''pre'', ''t''] [(''s'', [''s''])],
        single_asset ''down'' [''d''] [(''t'', [''t'']), (''u'', [''pre'', ''t''])]]"
  let ?S = "[\<lparr>source_key = [''s''], source_group_name = ''default'',
               source_resource_defs = ([] :: (string \<times> nat) list)\<rparr>]"
  have wf: "\<forall>ad\<in>set ?A. keys ad \<noteq> [] \<and> distinct (map fst (keys_by_input_name ad)) \<and>
             (\<forall>(n, k)\<in>set (keys_by_input_name ad). k \<noteq> []) \<and>
             (\<forall>k\<in>set (keys ad). k \<noteq> [] \<and> k \<in> fst ` set (group_names_by_key ad))"
    "\<forall>sa\<in>set ?S. source_key sa \<noteq> []"
    "distinct (map fst (lookup_pairs ?A ?S))"
    by (simp_all add: single_asset_def lookup_pairs_def)
  have ev: "resolve_assets_def_deps ?A ?S =
      Inr [(single_asset ''up'' [''pre'', ''t''] [(''s'', [''s''])], [(''s'', [''s''])]),
           (single_asset ''down'' [''d''] [(''t'', [''t'']), (''u'', [''pre'', ''t''])],
            [(''t'', [''pre'', ''t'']), (''u'', [''pre'', ''t''])])]"
    by code_simp
  from key_resolver [OF wf] ev
  show "\<exists>result. resolve_assets_def_deps ?A ?S = Inr result \<and>
     map snd result = [[(''s'', [''s''])], [(''t'', [''pre'', ''t'']), (''u'', [''pre'', ''t''])]]"
    by simp
next
  let ?A = "[single_asset ''up'' [''pre'', ''t''] [],
        single_asset ''down'' [''d''] [(''t'', [''other''])]]"
  let ?S = "[] :: nat source_asset list"
  have wf: "\<forall>ad\<in>set ?A. keys ad \<noteq> [] \<and> distinct (map fst (keys_by_input_name ad)) \<and>
             (\<forall>(n, k)\<in>set (keys_by_input_name ad). k \<noteq> []) \<and>
             (\<forall>k\<in>set (keys ad). k \<noteq> [] \<and> k \<in> fst ` set (group_names_by_key ad))"
    "\<forall>sa\<in>set ?S. source_key sa \<noteq> []"
    "distinct (map fst (lookup_pairs ?A ?S))"
    by (simp_all add: single_asset_def lookup_pairs_def)
  have ev: "resolve_assets_def_deps ?A ?S =
     Inl (DagsterInvalidDefinitionError (InputNotProduced [''other''] [''d'']))"
    by code_simp
  from key_resolver [OF wf] ev show "resolve_assets_def_deps ?A ?S =
     Inl (DagsterInvalidDefinitionError (InputNotProduced [''other''] [''d'']))"
    by simp
qed

text \<open>
  The claim as stated fails: a computation with the two outputs \<open>d1\<close> and \<open>d2\<close>,
  both in the group \<open>default\<close>, has exactly one distinct output group, and its input
  \<open>t\<close> matches the key \<open>pre/t\<close> of that group by its final segment; yet the input is
  not resolved and the definition error is raised.
\<close>

theorem key_resolver_counterexample:
  "set (map snd (group_names_by_key
      ((single_asset ''down'' [''d1''] [(''t'', [''t''])])
         \<lparr>keys := [[''d1''], [''d2'']],
          keys_by_output_name := [(''o1'', [''d1'']), (''o2'', [''d2''])],
          group_names_by_key := [([''d1''], ''default''), ([''d2''], ''default'')]\<rparr>))) =
     {''default''} \<and>
   map_of (lookup_pairs
     [single_asset ''up'' [''pre'', ''t''] [],
      (single_asset ''down'' [''d1''] [(''t'', [''t''])])
         \<lparr>keys := [[''d1''], [''d2'']],
          keys_by_output_name := [(''o1'', [''d1'']), (''o2'', [''d2''])],
          group_names_by_key := [([''d1''], ''default''), ([''d2''], ''default'')]\<rparr>]
     ([] :: nat source_asset list)) (''default'', ''t'') = Some [''pre'', ''t''] \<and>
   resolve_assets_def_deps
     [single_asset ''up'' [''pre'', ''t''] [],
      (single_asset ''down'' [''d1''] [(''t'', [''t''])])
         \<lparr>keys := [[''d1''], [''d2'']],
          keys_by_output_name := [(''o1'', [''d1'']), (''o2'', [''d2''])],
          group_names_by_key := [([''d1''], ''default''), ([''d2''], ''default'')]\<rparr>]
     ([] :: nat source_asset list) =
     Inl (DagsterInvalidDefinitionError (InputNotProduced [''t''] [''d1'']))"
proof (intro conjI)
  show "set (map snd (group_names_by_key
      ((single_asset ''down'' [''d1''] [(''t'', [''t''])])
         \<lparr>keys := [[''d1''], [''d2'']],
          keys_by_output_name := [(''o1'', [''d1'']), (''o2'', [''d2''])],
          group_names_by_key := [([''d1''], ''default''), ([''d2''], ''default'')]\<rparr>))) =
     {''default''}"
    by simp
  show "map_of (lookup_pairs
     [single_asset ''up'' [''pre'', ''t''] [],
      (single_asset ''down'' [''d1''] [(''t'', [''t''])])
         \<lparr>keys := [[''d1''], [''d2'']],
          keys_by_output_name := [(''o1'', [''d1'']), (''o2'', [''d2''])],
          group_names_by_key := [([''d1''], ''default''), ([''d2''], ''default'')]\<rparr>]
     ([] :: nat source_asset list)) (''default'', ''t'') = Some [''pre'', ''t'']"
    by (simp add: lookup_pairs_def single_asset_def)
  show "resolve_assets_def_deps
     [single_asset ''up'' [''pre'', ''t''] [],
      (single_asset ''down'' [''d1''] [(''t'', [''t''])])
         \<lparr>keys := [[''d1''], [''d2'']],
          keys_by_output_name := [(''o1'', [''d1'']), (''o2'', [''d2''])],
          group_names_by_key := [([''d1''], ''default''), ([''d2''], ''default'')]\<rparr>]
     ([] :: nat source_asset list) =
     Inl (DagsterInvalidDefinitionError (InputNotProduced [''t''] [''d1'']))"
    by code_simp
qed

text \<open>
  The hypothesis that no two keys share group and final path segment is needed.
  When two produced keys do, the later one overwrites the earlier one in the lookup
  table, whose values are what the exact match is tested against: the input that
  declares the produced key \<open>a/t\<close> is not matched exactly and resolves to the key
  \<open>b/t\<close> instead.
\<close>

lemma overwritten_key_not_matched:
  "resolve_assets_def_deps
     [single_asset ''u1'' [''a'', ''t''] [], single_asset ''u2'' [''b'', ''t''] [],
      single_asset ''down'' [''d''] [(''t'', [''a'', ''t''])]]
     ([] :: nat source_asset list) =
   Inr [(single_asset ''u1'' [''a'', ''t''] [], []),
        (single_asset ''u2'' [''b'', ''t''] [], []),
        (single_asset ''down'' [''d''] [(''t'', [''a'', ''t''])], [(''t'', [''b'', ''t''])])]"
  by code_simp


section \<open>Proofs: node graph assembler\<close>

lemma for_loop_append:
  "for_loop body (xs @ ys) s =
     (case for_loop body xs s of Inl e \<Rightarrow> Inl e | Inr s' \<Rightarrow> for_loop body ys s')"
  by (induction xs arbitrary: s) (auto split: sum.splits)

lemma node_edges_lookup:
  assumes "distinct (map fst dk)"
  shows "map_of (fold (\<lambda>(input_name, upstream_asset_key) d.
             case map_of bk upstream_asset_key of
               Some (a, out) \<Rightarrow> AList.update input_name (DependencyDefinition a out) d
             | None \<Rightarrow> d) dk d) n =
     (case map_of dk n of
        Some k \<Rightarrow> (case map_of bk k of
                     Some (a, out) \<Rightarrow> Some (DependencyDefinition a out)
                   | None \<Rightarrow> map_of d n)
      | None \<Rightarrow> map_of d n)"
  using assms
proof (induction dk arbitrary: d)
  case Nil
  then show ?case by simp
next
  case (Cons p dk)
  obtain n0 k0 where p: "p = (n0, k0)" by (cases p)
  from Cons.prems p have d: "distinct (map fst dk)" and fresh: "map_of dk n0 = None"
    by (auto simp: map_of_eq_None_iff)
  show ?case
    using fresh by (auto simp: p Cons.IH [OF d] update_conv' split: option.splits)
qed

lemma node_edges_map_of:
  assumes "distinct (map fst dk)" "(n, k) \<in> set dk"
  shows "map_of (node_edges bk dk) n =
     (case map_of bk k of Some (a, out) \<Rightarrow> Some (DependencyDefinition a out) | None \<Rightarrow> None)"
proof -
  from assms have "map_of dk n = Some k" by (rule map_of_is_SomeI)
  then show ?thesis
    by (simp add: node_edges_def node_edges_lookup [OF assms(1)] split: option.splits)
qed

lemma node_edges_dom:
  assumes "distinct (map fst dk)"
  shows "fst ` set (node_edges bk dk) \<subseteq> fst ` set dk"
proof
  fix n
  assume "n \<in> fst ` set (node_edges bk dk)"
  then have "map_of (node_edges bk dk) n \<noteq> None" by (simp add: map_of_eq_None_iff)
  then have "map_of dk n \<noteq> None"
    by (simp add: node_edges_def node_edges_lookup [OF assms] split: option.splits)
  then show "n \<in> fst ` set dk" by (simp add: map_of_eq_None_iff)
qed

lemma record_input_handles_lookup:
  "map_of (record_input_handles h dk ih) hn =
     (case map_of (rev (map (\<lambda>(n, k). ((h, n), k)) dk)) hn of
        Some k \<Rightarrow> Some k | None \<Rightarrow> map_of ih hn)"
proof -
  have "record_input_handles h dk ih =
      fold (\<lambda>(k, v) d. AList.update k v d) (map (\<lambda>(n, k). ((h, n), k)) dk) ih"
    by (simp add: record_input_handles_def fold_map comp_def case_prod_unfold)
  then show ?thesis by (simp only: map_of_fold_update)
qed

lemma record_input_handles_other:
  assumes "h' \<noteq> h"
  shows "map_of (record_input_handles h dk ih) (h', n) = map_of ih (h', n)"
proof -
  have "(h', n) \<notin> fst ` set (rev (map (\<lambda>(n, k). ((h, n), k)) dk))"
    using assms by auto
  then have "map_of (rev (map (\<lambda>(n, k). ((h, n), k)) dk)) (h', n) = None"
    by (subst map_of_eq_None_iff)
  then show ?thesis by (simp add: record_input_handles_lookup)
qed

lemma record_input_handles_same:
  assumes "distinct (map fst dk)" "(n, k) \<in> set dk"
  shows "map_of (record_input_handles h dk ih) (h, n) = Some k"
proof -
  let ?ps = "rev (map (\<lambda>(n, k). ((h, n), k)) dk)"
  have "map fst (map (\<lambda>(n, k). ((h, n), k)) dk) = map (Pair h) (map fst dk)"
    by (simp add: case_prod_unfold)
  moreover have "distinct (map (Pair h) (map fst dk))"
    using assms(1) by (simp add: distinct_map inj_on_def)
  ultimately have "distinct (map fst ?ps)" by (simp add: rev_map [symmetric] del: map_map)
  moreover from assms(2) have "((h, n), k) \<in> set ?ps" by force
  ultimately have "map_of ?ps (h, n) = Some k" by (rule map_of_is_SomeI)
  then show ?thesis by (simp add: record_input_handles_lookup)
qed

lemma node_key_of_inj: "node_key_of h ad = node_key_of h' ad' \<Longrightarrow> h = h'"
  by (auto simp: node_key_of_def split: if_splits)

lemma connect_loop:
  assumes "for_loop (connect_node resolved bk) hs (deps0, ih0) = Inr (deps, ih)"
    and "distinct (map fst hs)"
    and "\<forall>(ad, dk)\<in>set resolved. distinct (map fst dk)"
  shows "(\<forall>(h, ad)\<in>set hs. \<exists>dk. map_of resolved ad = Some dk \<and>
            map_of deps (node_key_of h ad) = Some (node_edges bk dk) \<and>
            (\<forall>(n, k)\<in>set dk. map_of ih (h, n) = Some k)) \<and>
         fst ` set deps = fst ` set deps0 \<union> (\<lambda>(h, ad). node_key_of h ad) ` set hs"
  using assms(1,2)
proof (induction hs arbitrary: deps ih rule: rev_induct)
  case Nil
  then show ?case by simp
next
  case (snoc x hs)
  obtain h ad where x: "x = (h, ad)" by (cases x)
  from snoc.prems(1) obtain d1 i1 where
    pre: "for_loop (connect_node resolved bk) hs (deps0, ih0) = Inr (d1, i1)"
    and last: "connect_node resolved bk (h, ad) (d1, i1) = Inr (deps, ih)"
    by (auto simp: for_loop_append x split: sum.splits)
  from last obtain dk where dk: "map_of resolved ad = Some dk"
    and deps: "deps = AList.update (node_key_of h ad) (node_edges bk dk) d1"
    and ih: "ih = record_input_handles h dk i1"
    by (auto simp: connect_node_def split: option.splits)
  from dk have "(ad, dk) \<in> set resolved" by (rule map_of_SomeD)
  with assms(3) have ddk: "distinct (map fst dk)" by auto
  from snoc.prems(2) x have dhs: "distinct (map fst hs)" and hfresh: "h \<notin> fst ` set hs"
    by auto
  note IH = snoc.IH [OF pre dhs]
  have old: "\<exists>dk'. map_of resolved ad' = Some dk' \<and>
            map_of deps (node_key_of h' ad') = Some (node_edges bk dk') \<and>
            (\<forall>(n, k)\<in>set dk'. map_of ih (h', n) = Some k)"
    if "(h', ad') \<in> set hs" for h' ad'
  proof -
    from that hfresh have ne: "h' \<noteq> h" by force
    then have nk: "node_key_of h' ad' \<noteq> node_key_of h ad" using node_key_of_inj by blast
    from IH that obtain dk' where dk': "map_of resolved ad' = Some dk'"
      "map_of d1 (node_key_of h' ad') = Some (node_edges bk dk')"
      "\<forall>(n, k)\<in>set dk'. map_of i1 (h', n) = Some k" by blast
    from dk'(2) nk have "map_of deps (node_key_of h' ad') = Some (node_edges bk dk')"
      by (simp add: deps update_conv')
    moreover from dk'(3) ne have "\<forall>(n, k)\<in>set dk'. map_of ih (h', n) = Some k"
      by (simp add: ih record_input_handles_other)
    ultimately show ?thesis using dk'(1) by blast
  qed
  have new: "\<exists>dk'. map_of resolved ad = Some dk' \<and>
            map_of deps (node_key_of h ad) = Some (node_edges bk dk') \<and>
            (\<forall>(n, k)\<in>set dk'. map_of ih (h, n) = Some k)"
    using dk ddk by (auto simp: deps ih update_conv' record_input_handles_same)
  have dom: "fst ` set deps = fst ` set deps0 \<union> (\<lambda>(h, ad). node_key_of h ad) ` set (hs @ [x])"
    using IH by (auto simp: deps dom_update x)
  from old new dom show ?case by (auto simp: x)
qed

lemma outputs_fold_dom:
  "fst ` set (fold (\<lambda>(out, k). AList.update k (a, out)) outs bk) =
     fst ` set bk \<union> snd ` set outs"
proof (induction outs arbitrary: bk)
  case Nil
  then show ?case by simp
next
  case (Cons p outs)
  obtain o1 k1 where p: "p = (o1, k1)" by (cases p)
  have "fst ` set (AList.update k1 (a, o1) bk) = {k1} \<union> fst ` set bk"
    by (rule dom_update)
  then show ?case by (simp add: p Cons.IH)
qed

lemma outputs_fold_lookup:
  assumes "map_of (fold (\<lambda>(out, k). AList.update k (a, out)) outs bk) k' = Some (a', out')"
  shows "(a' = a \<and> (out', k') \<in> set outs) \<or> map_of bk k' = Some (a', out')"
  using assms
proof (induction outs arbitrary: bk)
  case Nil
  then show ?case by simp
next
  case (Cons p outs)
  obtain o1 k1 where p: "p = (o1, k1)" by (cases p)
  from Cons.prems have "map_of (fold (\<lambda>(out, k). AList.update k (a, out)) outs
      (AList.update k1 (a, o1) bk)) k' = Some (a', out')" by (simp add: p)
  from Cons.IH [OF this] show ?case
    by (auto simp: p update_conv' split: if_splits)
qed

lemma name_node_step:
  "\<exists>c' alias. name_node x (c, bh, bk) =
     (c', AList.update alias x bh,
      fold (\<lambda>(out, k). AList.update k (alias, out)) (keys_by_output_name x) bk)"
proof -
  let ?al = "case map_of c (node_def_name x) of
               None \<Rightarrow> node_def_name x
             | Some c \<Rightarrow> if c \<noteq> 0 then node_def_name x @ ''_'' @ str_of_nat (c + 1)
                         else node_def_name x"
  have "snd (name_node x (c, bh, bk)) =
     (AList.update ?al x bh,
      fold (\<lambda>(out, k). AList.update k (?al, out)) (keys_by_output_name x) bk)"
    by (simp add: name_node_def Let_def)
  moreover obtain c' r where "name_node x (c, bh, bk) = (c', r)"
    by (cases "name_node x (c, bh, bk)")
  ultimately have eq: "name_node x (c, bh, bk) =
     (c', AList.update ?al x bh,
      fold (\<lambda>(out, k). AList.update k (?al, out)) (keys_by_output_name x) bk)"
    by simp
  show ?thesis
    by (rule exI [of _ c'], rule exI [of _ ?al], rule eq)
qed

lemma naming_invariant:
  assumes "fold name_node xs ([], [], []) = (c, bh, bk)"
  shows "distinct (map fst bh) \<and>
         (\<forall>(h, ad)\<in>set bh. ad \<in> set xs) \<and>
         fst ` set bk = (\<Union>ad\<in>set xs. snd ` set (keys_by_output_name ad)) \<and>
         (\<forall>k a out. map_of bk k = Some (a, out) \<longrightarrow>
            a \<in> fst ` set bh \<and> (\<exists>ad\<in>set xs. (out, k) \<in> set (keys_by_output_name ad)))"
  using assms
proof (induction xs arbitrary: c bh bk rule: rev_induct)
  case Nil
  then show ?case by simp
next
  case (snoc x xs)
  obtain c0 bh0 bk0 where st: "fold name_node xs ([], [], []) = (c0, bh0, bk0)"
    by (cases "fold name_node xs ([], [], [])") auto
  note IH = snoc.IH [OF st]
  from name_node_step [of x c0 bh0 bk0] obtain c' nm where
    step: "name_node x (c0, bh0, bk0) =
      (c', AList.update nm x bh0,
       fold (\<lambda>(out, k). AList.update k (nm, out)) (keys_by_output_name x) bk0)"
    by blast
  with snoc.prems st have bh: "bh = AList.update nm x bh0"
    and bk: "bk = fold (\<lambda>(out, k). AList.update k (nm, out)) (keys_by_output_name x) bk0"
    by simp_all
  have d: "distinct (map fst bh)" using IH by (simp add: bh distinct_update)
  have m: "\<forall>(h, ad)\<in>set bh. ad \<in> set (xs @ [x])"
  proof -
    have "set (AList.update nm x bh0) \<subseteq> set bh0 \<union> {(nm, x)}"
      by (induction bh0) auto
    with IH show ?thesis by (auto simp: bh)
  qed
  have dom: "fst ` set bk = (\<Union>ad\<in>set (xs @ [x]). snd ` set (keys_by_output_name ad))"
    using IH by (simp add: bk outputs_fold_dom Un_commute)
  have look: "a \<in> fst ` set bh \<and> (\<exists>ad\<in>set (xs @ [x]). (out, k) \<in> set (keys_by_output_name ad))"
    if "map_of bk k = Some (a, out)" for k a out
  proof -
    from that have "(a = nm \<and> (out, k) \<in> set (keys_by_output_name x)) \<or>
        map_of bk0 k = Some (a, out)"
      unfolding bk by (rule outputs_fold_lookup)
    then show ?thesis
    proof
      assume "a = nm \<and> (out, k) \<in> set (keys_by_output_name x)"
      then show ?thesis by (auto simp: bh dom_update)
    next
      assume "map_of bk0 k = Some (a, out)"
      with IH have "a \<in> fst ` set bh0" "\<exists>ad\<in>set xs. (out, k) \<in> set (keys_by_output_name ad)"
        by blast+
      then show ?thesis by (auto simp: bh dom_update)
    qed
  qed
  from d m dom look show ?case by blast
qed

lemma resolve_loop_distinct:
  "for_loop (resolve_input tbl ak ad g) ins d = Inr d' \<Longrightarrow> distinct (map fst d)
     \<Longrightarrow> distinct (map fst d')"
proof (induction ins arbitrary: d)
  case Nil
  then show ?case by simp
next
  case (Cons p ins)
  obtain n k where p: "p = (n, k)" by (cases p)
  from Cons.prems(1) obtain d1 where one: "resolve_input tbl ak ad g (n, k) d = Inr d1"
    and rest: "for_loop (resolve_input tbl ak ad g) ins d1 = Inr d'"
    by (auto simp: p split: sum.splits)
  from one obtain key where "d1 = AList.update n key d"
    by (auto simp: resolve_input_def split: if_splits option.splits sum.splits)
  with Cons.prems(2) have "distinct (map fst d1)" by (simp add: distinct_update)
  with Cons.IH [OF rest] show ?case .
qed

lemma resolved_distinct_names:
  assumes "resolve_assets_def_deps as ss = Inr resolved"
  shows "\<forall>(ad, dk)\<in>set resolved. distinct (map fst dk)"
proof -
  have gen: "for_loop (\<lambda>assets_def result.
                 case resolve_assets_def tbl (map snd tbl) assets_def of
                   Inl e \<Rightarrow> Inl e
                 | Inr dep_keys_by_input_name \<Rightarrow>
                     Inr (result @ [(assets_def, dep_keys_by_input_name)])) xs acc = Inr res
      \<Longrightarrow> \<forall>(ad, dk)\<in>set acc. distinct (map fst dk)
      \<Longrightarrow> \<forall>(ad, dk)\<in>set res. distinct (map fst dk)"
    for tbl :: group_table and xs :: "('a, 'b) assets_definition list" and acc res
  proof (induction xs arbitrary: acc)
    case Nil
    then show ?case by simp
  next
    case (Cons a xs)
    from Cons.prems(1) obtain dk where dk: "resolve_assets_def tbl (map snd tbl) a = Inr dk"
      and rest: "for_loop (\<lambda>assets_def result.
                 case resolve_assets_def tbl (map snd tbl) assets_def of
                   Inl e \<Rightarrow> Inl e
                 | Inr dep_keys_by_input_name \<Rightarrow>
                     Inr (result @ [(assets_def, dep_keys_by_input_name)])) xs
                 (acc @ [(a, dk)]) = Inr res"
      by (auto split: sum.splits)
    from dk have "distinct (map fst dk)"
      unfolding resolve_assets_def_def by (rule resolve_loop_distinct) simp
    with Cons.prems(2) have "\<forall>(ad, dk)\<in>set (acc @ [(a, dk)]). distinct (map fst dk)" by auto
    from Cons.IH [OF rest this] show ?case .
  qed
  from assms obtain tbl where
    "for_loop (\<lambda>assets_def result.
                 case resolve_assets_def tbl (map snd tbl) assets_def of
                   Inl e \<Rightarrow> Inl e
                 | Inr dep_keys_by_input_name \<Rightarrow>
                     Inr (result @ [(assets_def, dep_keys_by_input_name)])) as [] = Inr resolved"
    by (auto simp: resolve_assets_def_deps_def split: sum.splits)
  from gen [OF this] show ?thesis by simp
qed

text \<open>
  What holds for every input: the node keys of the assembled graph are those of the
  units; for every unit and every resolved input of its computation, the input
  handle map records the resolved key under (unit, input name), whether or not the
  key has a producer in the graph; and the unit's dependency dict has an edge for
  that input exactly when the resolved key is an output key of one of the
  computations supplied: then the edge points to an identifier of the graph and to
  an output name under which one of the computations supplied produces the key, and
  otherwise (the key being that of a source artifact) there is no edge. A unit has
  no edge for any other input name. The computation that produces the key need not
  be the unit the edge points to, nor a unit of the graph at all.
\<close>

lemma edges_of_resolved_inputs:
  fixes assets :: "('p, 'r) assets_definition list"
  assumes "build_node_deps assets source_assets = Inr (deps, handles, input_handles)"
  shows "\<exists>resolved.
     resolve_assets_def_deps (sort_key (\<lambda>ad. sort (keys ad)) assets) source_assets =
       Inr resolved \<and>
     fst ` set deps = (\<lambda>(h, ad). node_key_of h ad) ` set handles \<and>
     (\<forall>(h, ad)\<in>set handles. \<exists>dep_keys edges.
        map_of resolved ad = Some dep_keys \<and>
        map_of deps (node_key_of h ad) = Some edges \<and>
        fst ` set edges \<subseteq> fst ` set dep_keys \<and>
        (\<forall>(n, key)\<in>set dep_keys.
           map_of input_handles (h, n) = Some key \<and>
           (if key \<in> (\<Union>ad'\<in>set assets. snd ` set (keys_by_output_name ad'))
            then \<exists>node out. map_of edges n = Some (DependencyDefinition node out) \<and>
                   node \<in> fst ` set handles \<and>
                   (\<exists>ad'\<in>set assets. (out, key) \<in> set (keys_by_output_name ad'))
            else map_of edges n = None)))"
proof -
  let ?sorted = "sort_key (\<lambda>ad. sort (keys ad)) assets"
  obtain c bh bk where st: "fold name_node ?sorted ([], [], []) = (c, bh, bk)"
    by (cases "fold name_node ?sorted ([], [], [])") auto
  from assms st obtain resolved where
    res: "resolve_assets_def_deps ?sorted source_assets = Inr resolved"
    and loop: "for_loop (connect_node resolved bk) bh ([], []) = Inr (deps, input_handles)"
    and h: "handles = bh"
    by (auto simp: build_node_deps_def Let_def split: sum.splits)
  from naming_invariant [OF st] have dbh: "distinct (map fst bh)"
    and dom: "fst ` set bk = (\<Union>ad\<in>set assets. snd ` set (keys_by_output_name ad))"
    and tgt: "\<And>k a out. map_of bk k = Some (a, out) \<Longrightarrow>
            a \<in> fst ` set bh \<and> (\<exists>ad\<in>set assets. (out, k) \<in> set (keys_by_output_name ad))"
    by auto
  note names = resolved_distinct_names [OF res]
  from connect_loop [OF loop dbh names]
  have units: "\<forall>(h, ad)\<in>set bh. \<exists>dk. map_of resolved ad = Some dk \<and>
            map_of deps (node_key_of h ad) = Some (node_edges bk dk) \<and>
            (\<forall>(n, k)\<in>set dk. map_of input_handles (h, n) = Some k)"
    and nodes: "fst ` set deps = (\<lambda>(h, ad). node_key_of h ad) ` set bh"
    by simp_all
  let ?P = "\<lambda>hd ad. \<exists>dep_keys edges.
        map_of resolved ad = Some dep_keys \<and>
        map_of deps (node_key_of hd ad) = Some edges \<and>
        fst ` set edges \<subseteq> fst ` set dep_keys \<and>
        (\<forall>(n, key)\<in>set dep_keys.
           map_of input_handles (hd, n) = Some key \<and>
           (if key \<in> (\<Union>ad'\<in>set assets. snd ` set (keys_by_output_name ad'))
            then \<exists>node out. map_of edges n = Some (DependencyDefinition node out) \<and>
                   node \<in> fst ` set bh \<and>
                   (\<exists>ad'\<in>set assets. (out, key) \<in> set (keys_by_output_name ad'))
            else map_of edges n = None))"
  have unit: "?P hd ad"
    if "(hd, ad) \<in> set bh" for hd ad
  proof -
    from units that obtain dk where dk: "map_of resolved ad = Some dk"
      "map_of deps (node_key_of hd ad) = Some (node_edges bk dk)"
      "\<forall>(n, k)\<in>set dk. map_of input_handles (hd, n) = Some k" by blast
    from dk(1) have "(ad, dk) \<in> set resolved" by (rule map_of_SomeD)
    with names have ddk: "distinct (map fst dk)" by auto
    have edge: "if key \<in> (\<Union>ad'\<in>set assets. snd ` set (keys_by_output_name ad'))
            then \<exists>node out. map_of (node_edges bk dk) n = Some (DependencyDefinition node out) \<and>
                   node \<in> fst ` set bh \<and>
                   (\<exists>ad'\<in>set assets. (out, key) \<in> set (keys_by_output_name ad'))
            else map_of (node_edges bk dk) n = None"
      if nk: "(n, key) \<in> set dk" for n key
    proof (cases "map_of bk key")
      case None
      then have "key \<notin> fst ` set bk" by (simp add: map_of_eq_None_iff)
      with None show ?thesis
        by (simp add: node_edges_map_of [OF ddk nk] dom [symmetric])
    next
      case (Some p)
      obtain a out where p: "p = (a, out)" by (cases p)
      from Some have "key \<in> fst ` set bk"
        by (metis map_of_eq_None_iff option.distinct(1))
      moreover note tgt [OF Some [unfolded p]]
      ultimately show ?thesis
        by (simp add: node_edges_map_of [OF ddk nk] dom [symmetric] Some p)
    qed
    from dk edge node_edges_dom [OF ddk, of bk] show ?thesis by blast
  qed
  have all: "\<forall>(hd, ad)\<in>set bh. ?P hd ad"
  proof (rule ballI)
    fix x
    assume x: "x \<in> set bh"
    obtain hd ad where xe: "x = (hd, ad)" by (cases x)
    from x xe have "(hd, ad) \<in> set bh" by simp
    from unit [OF this] show "case x of (hd, ad) \<Rightarrow> ?P hd ad"
      unfolding xe prod.case .
  qed
  from res nodes all show ?thesis
    unfolding h by (intro exI [of _ resolved] conjI)
qed

lemma edges_of_resolved_inputs_example:
  "build_node_deps
     [single_asset ''x'' [''p''] [(''s'', [''s''])], single_asset ''y'' [''q''] [(''p'', [''p''])]]
     [\<lparr>source_key = [''s''], source_group_name = ''default'', source_resource_defs = []\<rparr>] =
   Inr ([(NodeName ''x'', []),
         (NodeName ''y'', [(''p'', DependencyDefinition ''x'' ''result'')])],
        [(''x'', single_asset ''x'' [''p''] [(''s'', [''s''])]),
         (''y'', single_asset ''y'' [''q''] [(''p'', [''p''])])],
        [((''x'', ''s''), [''s'']), ((''y'', ''p''), [''p''])]) \<and>
   (\<exists>resolved.
     resolve_assets_def_deps (sort_key (\<lambda>ad. sort (keys ad))
       [single_asset ''x'' [''p''] [(''s'', [''s''])],
        single_asset ''y'' [''q''] [(''p'', [''p''])]])
       [\<lparr>source_key = [''s''], source_group_name = ''default'', source_resource_defs = []\<rparr>] =
       Inr resolved \<and>
     fst ` set [(NodeName ''x'', []),
                (NodeName ''y'', [(''p'', DependencyDefinition ''x'' ''result'')])] =
       (\<lambda>(h, ad). node_key_of h ad) `
         set [(''x'', single_asset ''x'' [''p''] [(''s'', [''s''])]),
              (''y'', single_asset ''y'' [''q''] [(''p'', [''p''])])])"
proof -
  let ?A = "[single_asset ''x'' [''p''] [(''s'', [''s''])],
             single_asset ''y'' [''q''] [(''p'', [''p''])]]"
  let ?S = "[\<lparr>source_key = [''s''], source_group_name = ''default'',
               source_resource_defs = ([] :: (string \<times> nat) list)\<rparr>]"
  have ev: "build_node_deps ?A ?S =
   Inr ([(NodeName ''x'', []),
         (NodeName ''y'', [(''p'', DependencyDefinition ''x'' ''result'')])],
        [(''x'', single_asset ''x'' [''p''] [(''s'', [''s''])]),
         (''y'', single_asset ''y'' [''q''] [(''p'', [''p''])])],
        [((''x'', ''s''), [''s'']), ((''y'', ''p''), [''p''])])"
    by code_simp
  from edges_of_resolved_inputs [OF ev] ev show ?thesis by blast
qed

lemma length_alist_update:
  "length (AList.update k v d) = (if k \<in> fst ` set d then length d else Suc (length d))"
  by (induction d) auto

lemma naming_invariant_own_units:
  assumes "fold name_node xs ([], [], []) = (c, bh, bk)"
  shows "length bh \<le> length xs \<and>
         (length bh = length xs \<longrightarrow>
            map snd bh = xs \<and>
            (\<forall>k a out. map_of bk k = Some (a, out) \<longrightarrow>
               (\<exists>ad. map_of bh a = Some ad \<and> (out, k) \<in> set (keys_by_output_name ad))))"
  using assms
proof (induction xs arbitrary: c bh bk rule: rev_induct)
  case Nil
  then show ?case by simp
next
  case (snoc x xs)
  obtain c0 bh0 bk0 where st: "fold name_node xs ([], [], []) = (c0, bh0, bk0)"
    by (cases "fold name_node xs ([], [], [])") auto
  note IH = snoc.IH [OF st]
  from name_node_step [of x c0 bh0 bk0] obtain c' nm where
    step: "name_node x (c0, bh0, bk0) =
      (c', AList.update nm x bh0,
       fold (\<lambda>(out, k). AList.update k (nm, out)) (keys_by_output_name x) bk0)"
    by blast
  with snoc.prems st have bh: "bh = AList.update nm x bh0"
    and bk: "bk = fold (\<lambda>(out, k). AList.update k (nm, out)) (keys_by_output_name x) bk0"
    by simp_all
  have len: "length bh = (if nm \<in> fst ` set bh0 then length bh0 else Suc (length bh0))"
    unfolding bh by (rule length_alist_update)
  from IH len have le: "length bh \<le> length (xs @ [x])" by (simp split: if_splits)
  have full: "map snd bh = xs @ [x] \<and>
            (\<forall>k a out. map_of bk k = Some (a, out) \<longrightarrow>
               (\<exists>ad. map_of bh a = Some ad \<and> (out, k) \<in> set (keys_by_output_name ad)))"
    if eq: "length bh = length (xs @ [x])"
  proof -
    from eq len IH have fresh: "nm \<notin> fst ` set bh0" and l0: "length bh0 = length xs"
      by (simp_all split: if_splits)
    from fresh have app: "bh = bh0 @ [(nm, x)]" unfolding bh by (rule update_fresh)
    from IH l0 have m0: "map snd bh0 = xs"
      and t0: "\<And>k a out. map_of bk0 k = Some (a, out) \<Longrightarrow>
                 \<exists>ad. map_of bh0 a = Some ad \<and> (out, k) \<in> set (keys_by_output_name ad)"
      by blast+
    have m: "map snd bh = xs @ [x]" by (simp add: app m0)
    have look: "\<exists>ad. map_of bh a = Some ad \<and> (out, k) \<in> set (keys_by_output_name ad)"
      if "map_of bk k = Some (a, out)" for k a out
    proof -
      from that have "(a = nm \<and> (out, k) \<in> set (keys_by_output_name x)) \<or>
          map_of bk0 k = Some (a, out)"
        unfolding bk by (rule outputs_fold_lookup)
      then show ?thesis
      proof
        assume "a = nm \<and> (out, k) \<in> set (keys_by_output_name x)"
        then show ?thesis by (simp add: bh update_conv')
      next
        assume "map_of bk0 k = Some (a, out)"
        from t0 [OF this] obtain ad where ad: "map_of bh0 a = Some ad"
          "(out, k) \<in> set (keys_by_output_name ad)" by blast
        from ad(1) have "(a, ad) \<in> set bh0" by (rule map_of_SomeD)
        then have "fst (a, ad) \<in> fst ` set bh0" by (rule imageI)
        then have "a \<in> fst ` set bh0" by simp
        with fresh have "a \<noteq> nm" by blast
        with ad show ?thesis by (simp add: bh update_conv')
      qed
    qed
    from m look show ?thesis by blast
  qed
  from le full show ?case by blast
qed

text \<open>
  When every computation has a unit of its own (the unit identifiers are pairwise
  distinct, so that no entry of the table of units is overwritten), the units are
  the computations in sorted order, and a unit has an edge for a resolved input
  exactly when a unit of the graph produces the resolved key: the edge then points
  to a unit and an output of it that produce the key, and there is no edge
  otherwise. The input handle map records the resolved key in both cases.
\<close>

lemma edges_of_own_units:
  fixes assets :: "('p, 'r) assets_definition list"
  assumes run: "build_node_deps assets source_assets = Inr (deps, handles, input_handles)"
    and own: "length handles = length assets"
  shows "map snd handles = sort_key (\<lambda>ad. sort (keys ad)) assets \<and>
     distinct (map fst handles) \<and>
     (\<exists>resolved.
        resolve_assets_def_deps (sort_key (\<lambda>ad. sort (keys ad)) assets) source_assets =
          Inr resolved \<and>
        (\<forall>(h, ad)\<in>set handles. \<exists>dep_keys edges.
           map_of resolved ad = Some dep_keys \<and>
           map_of deps (node_key_of h ad) = Some edges \<and>
           (\<forall>(n, key)\<in>set dep_keys.
              map_of input_handles (h, n) = Some key \<and>
              (if \<exists>(h', ad')\<in>set handles. key \<in> snd ` set (keys_by_output_name ad')
               then \<exists>node out ad'. map_of edges n = Some (DependencyDefinition node out) \<and>
                      map_of handles node = Some ad' \<and>
                      (out, key) \<in> set (keys_by_output_name ad')
               else map_of edges n = None))))"
proof -
  let ?sorted = "sort_key (\<lambda>ad. sort (keys ad)) assets"
  obtain c bh bk where st: "fold name_node ?sorted ([], [], []) = (c, bh, bk)"
    by (cases "fold name_node ?sorted ([], [], [])") auto
  from run st obtain resolved where
    res: "resolve_assets_def_deps ?sorted source_assets = Inr resolved"
    and loop: "for_loop (connect_node resolved bk) bh ([], []) = Inr (deps, input_handles)"
    and h: "handles = bh"
    by (auto simp: build_node_deps_def Let_def split: sum.splits)
  from naming_invariant [OF st] have dbh: "distinct (map fst bh)"
    and dom: "fst ` set bk = (\<Union>ad\<in>set assets. snd ` set (keys_by_output_name ad))"
    by auto
  from own h have "length bh = length ?sorted" by simp
  with naming_invariant_own_units [OF st] have units_are: "map snd bh = ?sorted"
    and tgt: "\<And>k a out. map_of bk k = Some (a, out) \<Longrightarrow>
            \<exists>ad. map_of bh a = Some ad \<and> (out, k) \<in> set (keys_by_output_name ad)"
    by blast+
  from units_are have "set (map snd bh) = set assets" by simp
  then have su: "snd ` set bh = set assets" by simp
  have produced: "(\<exists>(h', ad')\<in>set bh. key \<in> snd ` set (keys_by_output_name ad')) \<longleftrightarrow>
      key \<in> fst ` set bk" for key
  proof -
    have "(\<exists>(h', ad')\<in>set bh. key \<in> snd ` set (keys_by_output_name ad')) \<longleftrightarrow>
        (\<exists>ad'\<in>snd ` set bh. key \<in> snd ` set (keys_by_output_name ad'))"
      by (auto simp: image_iff Bex_def)
    then show ?thesis by (simp add: su dom)
  qed
  note names = resolved_distinct_names [OF res]
  from connect_loop [OF loop dbh names]
  have units: "\<forall>(h, ad)\<in>set bh. \<exists>dk. map_of resolved ad = Some dk \<and>
            map_of deps (node_key_of h ad) = Some (node_edges bk dk) \<and>
            (\<forall>(n, k)\<in>set dk. map_of input_handles (h, n) = Some k)"
    by simp
  let ?P = "\<lambda>hd ad. \<exists>dep_keys edges.
        map_of resolved ad = Some dep_keys \<and>
        map_of deps (node_key_of hd ad) = Some edges \<and>
        (\<forall>(n, key)\<in>set dep_keys.
           map_of input_handles (hd, n) = Some key \<and>
           (if \<exists>(h', ad')\<in>set bh. key \<in> snd ` set (keys_by_output_name ad')
            then \<exists>node out ad'. map_of edges n = Some (DependencyDefinition node out) \<and>
                   map_of bh node = Some ad' \<and>
                   (out, key) \<in> set (keys_by_output_name ad')
            else map_of edges n = None))"
  have unit: "?P hd ad"
    if "(hd, ad) \<in> set bh" for hd ad
  proof -
    from units that obtain dk where dk: "map_of resolved ad = Some dk"
      "map_of deps (node_key_of hd ad) = Some (node_edges bk dk)"
      "\<forall>(n, k)\<in>set dk. map_of input_handles (hd, n) = Some k" by blast
    from dk(1) have "(ad, dk) \<in> set resolved" by (rule map_of_SomeD)
    with names have ddk: "distinct (map fst dk)" by auto
    have edge: "if \<exists>(h', ad')\<in>set bh. key \<in> snd ` set (keys_by_output_name ad')
            then \<exists>node out ad'.
                   map_of (node_edges bk dk) n = Some (DependencyDefinition node out) \<and>
                   map_of bh node = Some ad' \<and>
                   (out, key) \<in> set (keys_by_output_name ad')
            else map_of (node_edges bk dk) n = None"
      if nk: "(n, key) \<in> set dk" for n key
    proof (cases "map_of bk key")
      case None
      then have "key \<notin> fst ` set bk" by (simp add: map_of_eq_None_iff)
      with None show ?thesis
        by (simp only: produced node_edges_map_of [OF ddk nk]) simp
    next
      case (Some p)
      obtain a out where p: "p = (a, out)" by (cases p)
      from Some have inb: "key \<in> fst ` set bk"
        by (metis map_of_eq_None_iff option.distinct(1))
      from tgt [OF Some [unfolded p]] obtain ad' where
        "map_of bh a = Some ad'" "(out, key) \<in> set (keys_by_output_name ad')" by blast
      with inb show ?thesis
        by (simp only: produced node_edges_map_of [OF ddk nk] Some p) auto
    qed
    from dk edge show ?thesis by blast
  qed
  have all: "\<forall>(hd, ad)\<in>set bh. ?P hd ad"
  proof (rule ballI)
    fix x
    assume x: "x \<in> set bh"
    obtain hd ad where xe: "x = (hd, ad)" by (cases x)
    from x xe have "(hd, ad) \<in> set bh" by simp
    from unit [OF this] show "case x of (hd, ad) \<Rightarrow> ?P hd ad"
      unfolding xe prod.case .
  qed
  from units_are dbh res all show ?thesis
    unfolding h by (intro conjI exI [of _ resolved])
qed

text \<open>
  C7. An edge is emitted for an input whose resolved key no unit of the compiled
  graph produces. The computations \<open>foo\<close> (output key \<open>a\<close>), \<open>foo\<close> (output key
  \<open>b\<close>) and \<open>foo_2\<close> (output key \<open>c\<close>) are named \<open>foo\<close>, \<open>foo_2\<close> and \<open>foo_2\<close>,
  so the second one is overwritten in the table of units and the compiled graph has
  the units \<open>foo\<close> (producing \<open>a\<close>), \<open>foo_2\<close> (producing \<open>c\<close>) and \<open>down\<close>
  (producing \<open>d\<close>): no unit produces \<open>b\<close>. The input \<open>b\<close> of \<open>down\<close> is resolved to
  the key \<open>b\<close>, which is not the key of a source artifact either, and the unit
  \<open>down\<close> gets an edge for it, to the output \<open>result\<close> of the unit \<open>foo_2\<close>, which
  is the output that produces \<open>c\<close>. The input handle map records \<open>b\<close> for the input.
\<close>

theorem edge_without_producing_unit:
  "build_node_deps
     [single_asset ''foo'' [''a''] [], single_asset ''foo'' [''b''] [],
      single_asset ''foo_2'' [''c''] [], single_asset ''down'' [''d''] [(''b'', [''b''])]] [] =
   Inr ([(NodeName ''foo'', []), (NodeName ''foo_2'', []),
         (NodeName ''down'', [(''b'', DependencyDefinition ''foo_2'' ''result'')])],
        [(''foo'', single_asset ''foo'' [''a''] []),
         (''foo_2'', single_asset ''foo_2'' [''c''] []),
         (''down'', single_asset ''down'' [''d''] [(''b'', [''b''])])],
        [((''down'', ''b''), [''b''])]) \<and>
   map (\<lambda>(node_handle, assets_def). (node_handle, keys_by_output_name assets_def))
     [(''foo'', single_asset ''foo'' [''a''] []),
      (''foo_2'', single_asset ''foo_2'' [''c''] []),
      (''down'', single_asset ''down'' [''d''] [(''b'', [''b''])])] =
   [(''foo'', [(''result'', [''a''])]), (''foo_2'', [(''result'', [''c''])]),
    (''down'', [(''result'', [''d''])])]"
  by code_simp

section \<open>Proofs: cycle detector\<close>

lemma finite_dep_rel: "finite (dep_rel data)"
proof -
  have "dep_rel data \<subseteq> fst ` set data \<times> \<Union> (set ` snd ` set data)"
    by (force simp: dep_rel_def)
  moreover have "finite (fst ` set data \<times> \<Union> (set ` snd ` set data))" by simp
  ultimately show ?thesis by (rule finite_subset)
qed

lemma stuck_is_cyclic:
  assumes "data \<noteq> []" "no_deps data = []" "closed_deps data"
  shows "\<not> acyclic (dep_rel data)"
proof
  assume "acyclic (dep_rel data)"
  with finite_dep_rel have wf: "wf ((dep_rel data)\<inverse>)" by (rule finite_acyclic_wf_converse)
  from assms(1) obtain x0 where "x0 \<in> fst ` set data" by (cases data) auto
  from wfE_min [OF wf this] obtain z where z: "z \<in> fst ` set data"
    and min: "\<And>y. (y, z) \<in> (dep_rel data)\<inverse> \<Longrightarrow> y \<notin> fst ` set data" by blast
  from z obtain dep where zd: "(z, dep) \<in> set data" by auto
  with assms(2) have "dep \<noteq> []" by (auto simp: no_deps_def filter_empty_conv)
  then obtain y where y: "y \<in> set dep" by (cases dep) auto
  with zd have "(y, z) \<in> (dep_rel data)\<inverse>" by (auto simp: dep_rel_def)
  from min [OF this] have "y \<notin> fst ` set data" .
  moreover from assms(3) zd y have "y \<in> fst ` set data" by (auto simp: closed_deps_def)
  ultimately show False by contradiction
qed

lemma dep_rel_remove_items:
  "dep_rel (remove_items ordered data) =
     {(x, y). (x, y) \<in> dep_rel data \<and> x \<notin> set ordered \<and> y \<notin> set ordered}"
  by (auto simp: dep_rel_def remove_items_def)

lemma no_deps_no_edge:
  assumes "distinct (map fst data)" "x \<in> set (no_deps data)"
  shows "(x, y) \<notin> dep_rel data"
proof
  assume "(x, y) \<in> dep_rel data"
  then obtain dep where d: "(x, dep) \<in> set data" "y \<in> set dep" by (auto simp: dep_rel_def)
  from assms(2) have "(x, []) \<in> set data" by (auto simp: no_deps_def)
  with assms(1) d(1) have "dep = []" by (meson eq_key_imp_eq_value)
  with d(2) show False by simp
qed

lemma remove_items_acyclic:
  assumes "distinct (map fst data)"
  shows "acyclic (dep_rel (remove_items (no_deps data) data)) \<longleftrightarrow> acyclic (dep_rel data)"
proof
  let ?O = "set (no_deps data)"
  let ?A = "dep_rel (remove_items (no_deps data) data)"
  let ?B = "dep_rel data - ?A"
  assume a: "acyclic ?A"
  with finite_dep_rel have wfA: "wf ?A" by (rule finite_acyclic_wf)
  have B: "?B \<subseteq> {(x, y). x \<notin> ?O \<and> y \<in> ?O}"
    using no_deps_no_edge [OF assms] by (auto simp: dep_rel_remove_items)
  then have "?B \<subseteq> measure (\<lambda>x. if x \<in> ?O then 1 else 0)" by auto
  with wf_measure have wfB: "wf ?B" by (rule wf_subset)
  have "Domain ?A \<inter> Range ?B = {}"
    using B by (auto simp: dep_rel_remove_items)
  with wfA wfB have "wf (?A \<union> ?B)" by (rule wf_Un)
  then have "acyclic (?A \<union> ?B)" by (rule wf_acyclic)
  then show "acyclic (dep_rel data)" by (rule acyclic_subset) auto
next
  assume "acyclic (dep_rel data)"
  then show "acyclic (dep_rel (remove_items (no_deps data) data))"
    by (rule acyclic_subset) (auto simp: dep_rel_remove_items)
qed

lemma remove_items_invariant:
  assumes "distinct (map fst data)" "closed_deps data"
  shows "distinct (map fst (remove_items ordered data))"
    and "closed_deps (remove_items ordered data)"
proof -
  have keys: "map fst (remove_items ordered data) =
      filter (\<lambda>x. x \<notin> set ordered) (map fst data)"
    by (induction data) (auto simp: remove_items_def)
  with assms(1) show "distinct (map fst (remove_items ordered data))" by simp
  have "fst ` set (remove_items ordered data) = fst ` set data - set ordered"
    using keys by (metis set_diff_eq set_filter set_map)
  with assms(2) show "closed_deps (remove_items ordered data)"
    by (auto simp: closed_deps_def remove_items_def)
qed

lemma toposort_loop_correct:
  assumes "distinct (map fst data)" "closed_deps data"
  shows "(acyclic (dep_rel data) \<longrightarrow> (\<exists>layers. toposort_loop data = Inr layers)) \<and>
         (\<not> acyclic (dep_rel data) \<longrightarrow> toposort_loop data = Inl CircularDependencyError)"
  using assms
proof (induction data rule: toposort_loop.induct)
  case (1 data)
  show ?case
  proof (cases "no_deps data = []")
    case True
    show ?thesis
    proof (cases "data = []")
      case True
      then have "dep_rel data = {}" by (simp add: dep_rel_def)
      with True show ?thesis by (simp add: toposort_loop.simps [of "[]"] no_deps_def acyclic_def)
    next
      case False
      with True "1.prems" have "\<not> acyclic (dep_rel data)" by (intro stuck_is_cyclic)
      with True False show ?thesis by (simp add: toposort_loop.simps [of data])
    qed
  next
    case False
    let ?data' = "remove_items (no_deps data) data"
    from remove_items_invariant [OF "1.prems"]
    have inv: "distinct (map fst ?data')" "closed_deps ?data'" by simp_all
    note IH = "1.IH" [OF False inv]
    note eq = remove_items_acyclic [OF "1.prems"(1)]
    show ?thesis
    proof (cases "acyclic (dep_rel data)")
      case True
      with eq IH obtain layers where "toposort_loop ?data' = Inr layers" by blast
      with True False show ?thesis by (simp add: toposort_loop.simps [of data])
    next
      case nc: False
      with eq IH have "toposort_loop ?data' = Inl CircularDependencyError" by blast
      with nc False show ?thesis by (simp add: toposort_loop.simps [of data])
    qed
  qed
qed

lemma map_fst_pair_Nil: "map fst (map (\<lambda>item. (item, [])) xs) = xs"
  by (induction xs) auto

lemma dep_rel_append: "dep_rel (xs @ ys) = dep_rel xs \<union> dep_rel ys"
  by (auto simp: dep_rel_def)

lemma toposort_init_props:
  assumes "distinct (map fst data)"
  shows "distinct (map fst (toposort_init data))"
    and "closed_deps (toposort_init data)"
    and "dep_rel (toposort_init data) = dep_rel data - Id"
proof -
  define data1 where "data1 = map (\<lambda>(item, dep). (item, filter (\<lambda>e. e \<noteq> item) dep)) data"
  define extra where
    "extra = filter (\<lambda>e. e \<notin> fst ` set data1) (remdups (concat (map snd data1)))"
  have init: "toposort_init data = data1 @ map (\<lambda>item. (item, [])) extra"
    by (simp add: toposort_init_def Let_def data1_def extra_def)
  have keys1: "map fst data1 = map fst data"
    unfolding data1_def by (auto split: prod.splits)
  have keys: "map fst (toposort_init data) = map fst data @ extra"
    by (simp only: init map_append keys1 map_fst_pair_Nil)
  have dom1: "fst ` set data1 = fst ` set data"
    using keys1 by (metis set_map)
  have dex: "distinct extra" by (simp add: extra_def)
  have disj: "set extra \<inter> fst ` set data = {}"
    unfolding dom1 [symmetric] extra_def by auto
  show "distinct (map fst (toposort_init data))"
    unfolding keys using assms dex disj by (simp add: Int_commute)
  have rel1: "dep_rel data1 = dep_rel data - Id"
    unfolding data1_def by (auto simp: dep_rel_def)
  have "dep_rel (map (\<lambda>item. (item, [])) extra) = {}"
    by (auto simp: dep_rel_def)
  then show "dep_rel (toposort_init data) = dep_rel data - Id"
    by (simp add: init dep_rel_append rel1)
  have dom: "fst ` set (toposort_init data) = fst ` set data \<union> set extra"
    using keys by (metis set_append set_map)
  have "set dep \<subseteq> fst ` set data \<union> set extra"
    if "(x, dep) \<in> set (toposort_init data)" for x dep
  proof (cases "(x, dep) \<in> set data1")
    case True
    have "e \<in> fst ` set data \<union> set extra" if e: "e \<in> set dep" for e
    proof (cases "e \<in> fst ` set data1")
      case True
      then show ?thesis by (simp add: dom1)
    next
      case False
      from e \<open>(x, dep) \<in> set data1\<close> have "e \<in> set (concat (map snd data1))" by force
      with False show ?thesis by (simp add: extra_def)
    qed
    then show ?thesis by blast
  next
    case False
    with that have "dep = []" unfolding init by auto
    then show ?thesis by simp
  qed
  then show "closed_deps (toposort_init data)"
    unfolding closed_deps_def dom by blast
qed

lemma toposort_correct:
  assumes "distinct (map fst data)"
  shows "(acyclic (dep_rel data - Id) \<longrightarrow> (\<exists>layers. toposort data = Inr layers)) \<and>
         (\<not> acyclic (dep_rel data - Id) \<longrightarrow> toposort data = Inl CircularDependencyError)"
proof (cases "data = []")
  case True
  then have "dep_rel data = {}" by (simp add: dep_rel_def)
  with True show ?thesis by (simp add: toposort_def acyclic_def)
next
  case False
  from toposort_loop_correct [OF toposort_init_props(1,2) [OF assms]] False
  show ?thesis by (simp add: toposort_def toposort_init_props(3) [OF assms])
qed

lemma add_dep_loop:
  assumes "OtherDependency \<notin> set ds"
  shows "\<exists>ups. for_loop add_dep ds acc = Inr ups \<and>
           set ups = set acc \<union> {NodeName v | v out. DependencyDefinition v out \<in> set ds}"
  using assms
proof (induction ds arbitrary: acc)
  case Nil
  then show ?case by simp
next
  case (Cons d ds)
  from Cons.prems obtain v out where d: "d = DependencyDefinition v out"
    by (cases d) auto
  let ?acc = "if NodeName v \<in> set acc then acc else acc @ [NodeName v]"
  from Cons.prems have "OtherDependency \<notin> set ds" by simp
  from Cons.IH [OF this, of ?acc] obtain ups where
    ups: "for_loop add_dep ds ?acc = Inr ups"
    "set ups = set ?acc \<union> {NodeName v | v out. DependencyDefinition v out \<in> set ds}"
    by blast
  have "for_loop add_dep (d # ds) acc = Inr ups"
    using ups(1) by (simp add: d add_dep_def)
  moreover have "set ups =
      set acc \<union> {NodeName v | v out. DependencyDefinition v out \<in> set (d # ds)}"
    using ups(2) by (auto simp: d)
  ultimately show ?case by blast
qed

lemma unit_edges_Cons:
  "unit_edges ((u, inner) # deps) =
     {(u, NodeName v) | v n out. (n, DependencyDefinition v out) \<in> set inner} \<union> unit_edges deps"
  unfolding unit_edges_def by (simp add: set_eq_iff) blast

lemma node_deps_loop:
  assumes "\<forall>(u, inner)\<in>set deps. OtherDependency \<notin> snd ` set inner"
    and "distinct (map fst deps)"
    and "fst ` set nd0 \<inter> fst ` set deps = {}"
  shows "\<exists>nd. for_loop add_node_deps deps nd0 = Inr nd \<and>
           map fst nd = map fst nd0 @ map fst deps \<and>
           dep_rel nd = dep_rel nd0 \<union> unit_edges deps"
  using assms
proof (induction deps arbitrary: nd0)
  case Nil
  then show ?case by (simp add: unit_edges_def)
next
  case (Cons p deps)
  obtain u inner where p: "p = (u, inner)" by (cases p)
  from Cons.prems(1) p have "OtherDependency \<notin> set (map snd inner)" by simp
  from add_dep_loop [OF this, of "[]"] obtain ups where
    ups: "for_loop add_dep (map snd inner) [] = Inr ups"
    "set ups = {NodeName v | v out. DependencyDefinition v out \<in> set (map snd inner)}"
    by auto
  from Cons.prems(3) p have fresh: "u \<notin> fst ` set nd0" by auto
  let ?nd1 = "nd0 @ [(u, ups)]"
  have step: "add_node_deps (u, inner) nd0 = Inr ?nd1"
    by (simp add: add_node_deps_def ups(1) update_fresh [OF fresh])
  from Cons.prems p have a: "\<forall>(u, inner)\<in>set deps. OtherDependency \<notin> snd ` set inner"
    and b: "distinct (map fst deps)"
    and c: "fst ` set ?nd1 \<inter> fst ` set deps = {}" by auto
  from Cons.IH [OF a b c] obtain nd where
    nd: "for_loop add_node_deps deps ?nd1 = Inr nd"
    "map fst nd = map fst ?nd1 @ map fst deps"
    "dep_rel nd = dep_rel ?nd1 \<union> unit_edges deps" by blast
  have mem: "(DependencyDefinition v out \<in> set (map snd inner)) =
      (\<exists>n. (n, DependencyDefinition v out) \<in> set inner)" for v out
    by force
  have ups': "set ups = {NodeName v | v n out. (n, DependencyDefinition v out) \<in> set inner}"
    unfolding ups(2) mem by blast
  have r1: "dep_rel [(u, ups)] = {(u, y) | y. y \<in> set ups}"
    by (auto simp: dep_rel_def)
  have r2: "dep_rel [(u, ups)] =
      {(u, NodeName v) | v n out. (n, DependencyDefinition v out) \<in> set inner}"
    unfolding r1 ups' by blast
  have "dep_rel nd = dep_rel nd0 \<union> unit_edges (p # deps)"
    unfolding nd(3) p unit_edges_Cons dep_rel_append r2 by (simp add: Un_assoc)
  moreover have "for_loop add_node_deps (p # deps) nd0 = Inr nd"
    using nd(1) by (simp add: p step)
  moreover have "map fst nd = map fst nd0 @ map fst (p # deps)"
    using nd(2) by (simp add: p)
  ultimately show ?case by blast
qed

lemma trancl_map_prod:
  "(x, y) \<in> r\<^sup>+ \<Longrightarrow> (f x, f y) \<in> (map_prod f f ` r)\<^sup>+"
proof (induction rule: trancl_induct)
  case (base y)
  then have "(f x, f y) \<in> map_prod f f ` r" by force
  then show ?case by (rule r_into_trancl)
next
  case (step y z)
  from step.hyps(2) have "(f y, f z) \<in> map_prod f f ` r" by force
  with step.IH show ?case by (rule trancl_into_trancl)
qed

lemma acyclic_image_inj:
  assumes "inj f" "finite r"
  shows "acyclic (map_prod f f ` r) \<longleftrightarrow> acyclic r"
proof
  assume a: "acyclic (map_prod f f ` r)"
  show "acyclic r"
  proof (rule acyclicI, rule allI, rule notI)
    fix x
    assume "(x, x) \<in> r\<^sup>+"
    then have "(f x, f x) \<in> (map_prod f f ` r)\<^sup>+" by (rule trancl_map_prod)
    with a show False by (simp add: acyclic_def)
  qed
next
  assume "acyclic r"
  with assms(2) have "wf r" by (rule finite_acyclic_wf)
  then have "wf (map_prod f f ` r)" using assms(1) by (rule wf_map_prod_image)
  then show "acyclic (map_prod f f ` r)" by (rule wf_acyclic)
qed

lemma unit_graph_I:
  "(u, inner) \<in> set deps \<Longrightarrow> (n, DependencyDefinition v out) \<in> set inner
     \<Longrightarrow> (unit_name u, v) \<in> unit_graph deps"
  by (auto simp: unit_graph_def)

lemma unit_edges_image:
  assumes "\<forall>(u, inner)\<in>set deps. \<exists>name. u = NodeName name"
  shows "unit_edges deps - Id = map_prod NodeName NodeName ` (unit_graph deps - Id)"
proof (rule set_eqI)
  fix e :: "node_key \<times> node_key"
  obtain a b where e: "e = (a, b)" by (cases e)
  show "e \<in> unit_edges deps - Id \<longleftrightarrow> e \<in> map_prod NodeName NodeName ` (unit_graph deps - Id)"
  proof
    assume "e \<in> unit_edges deps - Id"
    with e obtain v inner n out where h: "(a, inner) \<in> set deps" "b = NodeName v"
      "(n, DependencyDefinition v out) \<in> set inner" "a \<noteq> b"
      by (auto simp: unit_edges_def)
    from assms h(1) obtain name where a: "a = NodeName name" by blast
    from unit_graph_I [OF h(1,3)] a have "(name, v) \<in> unit_graph deps" by simp
    with h(2,4) a have "(name, v) \<in> unit_graph deps - Id" by auto
    then have "map_prod NodeName NodeName (name, v) \<in>
        map_prod NodeName NodeName ` (unit_graph deps - Id)" by (rule imageI)
    then show "e \<in> map_prod NodeName NodeName ` (unit_graph deps - Id)"
      by (simp add: e a h(2))
  next
    assume "e \<in> map_prod NodeName NodeName ` (unit_graph deps - Id)"
    with e obtain x y where xy: "(x, y) \<in> unit_graph deps" "x \<noteq> y"
      "a = NodeName x" "b = NodeName y" by auto
    from xy(1) obtain u inner n out where h: "x = unit_name u" "(u, inner) \<in> set deps"
      "(n, DependencyDefinition y out) \<in> set inner"
      by (auto simp: unit_graph_def)
    from assms h(2) obtain name where "u = NodeName name" by blast
    with h(1) have "u = NodeName x" by simp
    with h xy show "e \<in> unit_edges deps - Id"
      by (auto simp: unit_edges_def e)
  qed
qed

text \<open>
  C2, as amended. For a dependency dict all of whose units are keyed by their names
  (none is an aliased invocation) and whose dependencies are all of the kind
  \<open>DependencyDefinition\<close>, the cycle detector returns true if and only if the
  unit-level dependency graph without the dependencies of a unit on itself has a
  directed cycle, that is, admits no topological ordering; this holds for graphs of
  every size.
\<close>

theorem cycle_detector:
  assumes "distinct (map fst deps)"
    and "\<forall>(u, inner)\<in>set deps. (\<exists>name. u = NodeName name) \<and> OtherDependency \<notin> snd ` set inner"
  shows "has_cycles deps = Inr (\<not> acyclic (unit_graph deps - Id))"
proof -
  from assms(2) have other: "\<forall>(u, inner)\<in>set deps. OtherDependency \<notin> snd ` set inner"
    and named: "\<forall>(u, inner)\<in>set deps. \<exists>name. u = NodeName name" by blast+
  from node_deps_loop [OF other assms(1), of "[]"] obtain nd where
    nd: "for_loop add_node_deps deps [] = Inr nd" "map fst nd = map fst deps"
    "dep_rel nd = unit_edges deps"
    by (auto simp: dep_rel_def)
  from nd(2) assms(1) have "distinct (map fst nd)" by simp
  note topo = toposort_correct [OF this, unfolded nd(3)]
  have "finite (unit_edges deps - Id)"
    using finite_dep_rel [of nd] by (simp add: nd(3))
  then have "finite (map_prod NodeName NodeName ` (unit_graph deps - Id))"
    by (simp only: unit_edges_image [OF named])
  moreover have inj: "inj (map_prod NodeName NodeName)"
    by (simp add: inj_on_def prod_eq_iff)
  ultimately have fin: "finite (unit_graph deps - Id)"
    by (metis finite_imageD subset_UNIV inj_on_subset)
  have "inj NodeName" by (simp add: inj_on_def)
  from acyclic_image_inj [OF this fin]
  have eq: "acyclic (unit_edges deps - Id) \<longleftrightarrow> acyclic (unit_graph deps - Id)"
    by (simp only: unit_edges_image [OF named])
  show ?thesis
  proof (cases "acyclic (unit_graph deps - Id)")
    case True
    with eq topo obtain layers where "toposort nd = Inr layers" by blast
    with True nd(1) show ?thesis by (simp add: has_cycles_def)
  next
    case False
    with eq topo have "toposort nd = Inl CircularDependencyError" by blast
    with False nd(1) show ?thesis by (simp add: has_cycles_def)
  qed
qed

theorem cycle_detector_witness:
  "has_cycles
     [(NodeName ''x'', []),
      (NodeName ''y'', [(''p'', DependencyDefinition ''x'' ''result'')]),
      (NodeName ''z'', [(''q'', DependencyDefinition ''y'' ''result''),
                        (''p'', DependencyDefinition ''x'' ''result'')])] = Inr False \<and>
   acyclic (unit_graph
     [(NodeName ''x'', []),
      (NodeName ''y'', [(''p'', DependencyDefinition ''x'' ''result'')]),
      (NodeName ''z'', [(''q'', DependencyDefinition ''y'' ''result''),
                        (''p'', DependencyDefinition ''x'' ''result'')])] - Id) \<and>
   has_cycles
     [(NodeName ''a'', [(''b1'', DependencyDefinition ''b'' ''o1'')]),
      (NodeName ''b'', [(''a1'', DependencyDefinition ''a'' ''o1'')])] = Inr True \<and>
   \<not> acyclic (unit_graph
     [(NodeName ''a'', [(''b1'', DependencyDefinition ''b'' ''o1'')]),
      (NodeName ''b'', [(''a1'', DependencyDefinition ''a'' ''o1'')])] - Id)"
proof -
  let ?D = "[(NodeName ''x'', []),
      (NodeName ''y'', [(''p'', DependencyDefinition ''x'' ''result'')]),
      (NodeName ''z'', [(''q'', DependencyDefinition ''y'' ''result''),
                        (''p'', DependencyDefinition ''x'' ''result'')])]"
  let ?C = "[(NodeName ''a'', [(''b1'', DependencyDefinition ''b'' ''o1'')]),
      (NodeName ''b'', [(''a1'', DependencyDefinition ''a'' ''o1'')])]"
  have d: "distinct (map fst ?D)"
    "\<forall>(u, inner)\<in>set ?D. (\<exists>name. u = NodeName name) \<and> OtherDependency \<notin> snd ` set inner"
    by simp_all
  have c: "distinct (map fst ?C)"
    "\<forall>(u, inner)\<in>set ?C. (\<exists>name. u = NodeName name) \<and> OtherDependency \<notin> snd ` set inner"
    by simp_all
  have evd: "has_cycles ?D = Inr False" by code_simp
  have evc: "has_cycles ?C = Inr True" by code_simp
  from cycle_detector [OF d] evd have "acyclic (unit_graph ?D - Id)" by simp
  moreover from cycle_detector [OF c] evc have "\<not> acyclic (unit_graph ?C - Id)" by simp
  ultimately show ?thesis using evd evc by simp
qed

text \<open>
  The claim as stated fails: a unit that depends on itself is a directed cycle of the
  unit-level graph, which then admits no topological ordering, yet the cycle
  detector returns false, because \<open>toposort\<close> discards self-dependencies.
\<close>

theorem cycle_detector_counterexample:
  "has_cycles [(NodeName ''a'', [(''x'', DependencyDefinition ''a'' ''result'')])] = Inr False \<and>
   \<not> acyclic (unit_graph [(NodeName ''a'', [(''x'', DependencyDefinition ''a'' ''result'')])])"
proof
  show "has_cycles [(NodeName ''a'', [(''x'', DependencyDefinition ''a'' ''result'')])] =
      Inr False"
    by code_simp
  have "(unit_name (NodeName ''a''), ''a'') \<in>
      unit_graph [(NodeName ''a'', [(''x'', DependencyDefinition ''a'' ''result'')])]"
    by (rule unit_graph_I [of _ "[(''x'', DependencyDefinition ''a'' ''result'')]" _
          "''x''" _ "''result''"]) simp_all
  then have "(''a'', ''a'') \<in>
      unit_graph [(NodeName ''a'', [(''x'', DependencyDefinition ''a'' ''result'')])]"
    by simp
  then have "(''a'', ''a'') \<in>
      (unit_graph [(NodeName ''a'', [(''x'', DependencyDefinition ''a'' ''result'')])])\<^sup>+"
    by (rule r_into_trancl)
  then show "\<not> acyclic
      (unit_graph [(NodeName ''a'', [(''x'', DependencyDefinition ''a'' ''result'')])])"
    unfolding acyclic_def by blast
qed

text \<open>
  The hypothesis on the keys is needed. The key of an aliased unit is a
  \<open>NodeInvocation\<close>, which is no member of the sets of node names, so a cycle
  through an aliased unit goes unseen: the units \<open>foo\<close> and \<open>foo_2\<close> depend on each
  other and the cycle detector returns false.
\<close>

lemma cycle_through_aliased_unit_unseen:
  "has_cycles
     [(NodeName ''foo'', [(''b'', DependencyDefinition ''foo_2'' ''result'')]),
      (NodeInvocation ''foo'' ''foo_2'', [(''a'', DependencyDefinition ''foo'' ''result'')])] =
     Inr False \<and>
   \<not> acyclic (unit_graph
     [(NodeName ''foo'', [(''b'', DependencyDefinition ''foo_2'' ''result'')]),
      (NodeInvocation ''foo'' ''foo_2'', [(''a'', DependencyDefinition ''foo'' ''result'')])] - Id)"
proof
  let ?D = "[(NodeName ''foo'', [(''b'', DependencyDefinition ''foo_2'' ''result'')]),
      (NodeInvocation ''foo'' ''foo_2'', [(''a'', DependencyDefinition ''foo'' ''result'')])]"
  show "has_cycles ?D = Inr False" by code_simp
  have "(unit_name (NodeName ''foo''), ''foo_2'') \<in> unit_graph ?D"
    by (rule unit_graph_I [of _ "[(''b'', DependencyDefinition ''foo_2'' ''result'')]" _
          "''b''" _ "''result''"]) simp_all
  then have "(''foo'', ''foo_2'') \<in> unit_graph ?D - Id" by simp
  moreover have "(unit_name (NodeInvocation ''foo'' ''foo_2''), ''foo'') \<in> unit_graph ?D"
    by (rule unit_graph_I [of _ "[(''a'', DependencyDefinition ''foo'' ''result'')]" _
          "''a''" _ "''result''"]) simp_all
  then have "(''foo_2'', ''foo'') \<in> unit_graph ?D - Id" by simp
  ultimately have "(''foo'', ''foo'') \<in> (unit_graph ?D - Id)\<^sup>+"
    by (meson r_into_trancl trancl_trans)
  then show "\<not> acyclic (unit_graph ?D - Id)"
    unfolding acyclic_def by blast
qed


section \<open>Proofs: cycle resolver\<close>














section \<open>Proofs: remote pipeline lookup\<close>

text \<open>
  C10. The remote pipeline lookup raises an invariant violation unless the resolved
  repository location holds exactly one repository; when it holds exactly one, the
  lookup returns the external pipeline built from that repository's handle and from
  the data the location returns for the selector made of the location's name, the
  repository's name, the run's pipeline name and the run's solid selection.
\<close>

theorem remote_pipeline_lookup:
  "(length (get_repositories (from_handle h)) \<noteq> 1 \<longrightarrow>
      external_pipeline_from_run_with_repository_location_handle from_handle run h =
        Inl CheckError) \<and>
   (length (get_repositories (from_handle h)) = 1 \<longrightarrow>
      (\<exists>n repo. get_repositories (from_handle h) = [(n, repo)] \<and>
         external_pipeline_from_run_with_repository_location_handle from_handle run h =
           Inr (ExternalPipeline
                  (external_pipeline_data
                     (get_subset_external_pipeline_result (from_handle h)
                        \<lparr>selector_location_name = location_name (from_handle h),
                         selector_repository_name = repository_name repo,
                         selector_pipeline_name = pipeline_name run,
                         selector_solid_selection = solid_selection run\<rparr>))
                  (repository_handle repo))))"
proof (intro conjI impI)
  assume "length (get_repositories (from_handle h)) \<noteq> 1"
  then show "external_pipeline_from_run_with_repository_location_handle from_handle run h =
        Inl CheckError"
    by (simp add: external_pipeline_from_run_with_repository_location_handle_def Let_def)
next
  assume one: "length (get_repositories (from_handle h)) = 1"
  then obtain n repo where r: "get_repositories (from_handle h) = [(n, repo)]"
    by (cases "get_repositories (from_handle h)") auto
  then show "\<exists>n repo. get_repositories (from_handle h) = [(n, repo)] \<and>
         external_pipeline_from_run_with_repository_location_handle from_handle run h =
           Inr (ExternalPipeline
                  (external_pipeline_data
                     (get_subset_external_pipeline_result (from_handle h)
                        \<lparr>selector_location_name = location_name (from_handle h),
                         selector_repository_name = repository_name repo,
                         selector_pipeline_name = pipeline_name run,
                         selector_solid_selection = solid_selection run\<rparr>))
                  (repository_handle repo))"
    by (simp add: external_pipeline_from_run_with_repository_location_handle_def Let_def
        next_iter_def)
qed

theorem remote_pipeline_lookup_witness:
  "external_pipeline_from_run_with_repository_location_handle
     (\<lambda>h :: nat. \<lparr>location_name = ''loc'', get_repositories = [],
        get_subset_external_pipeline_result = (\<lambda>s. \<lparr>external_pipeline_data = s\<rparr>)\<rparr>)
     \<lparr>pipeline_name = ''pipe'', solid_selection = Some [''a'']\<rparr> 0 =
     (Inl CheckError :: error + (pipeline_selector, nat) external_pipeline) \<and>
   external_pipeline_from_run_with_repository_location_handle
     (\<lambda>h :: nat. \<lparr>location_name = ''loc'',
        get_repositories = [(''repo'', \<lparr>repository_name = ''repo'', repository_handle = h\<rparr>)],
        get_subset_external_pipeline_result = (\<lambda>s. \<lparr>external_pipeline_data = s\<rparr>)\<rparr>)
     \<lparr>pipeline_name = ''pipe'', solid_selection = Some [''a'']\<rparr> 4 =
     Inr (ExternalPipeline
            \<lparr>selector_location_name = ''loc'', selector_repository_name = ''repo'',
             selector_pipeline_name = ''pipe'', selector_solid_selection = Some [''a'']\<rparr> 4)"
proof (intro conjI)
  show "external_pipeline_from_run_with_repository_location_handle
     (\<lambda>h :: nat. \<lparr>location_name = ''loc'', get_repositories = [],
        get_subset_external_pipeline_result = (\<lambda>s. \<lparr>external_pipeline_data = s\<rparr>)\<rparr>)
     \<lparr>pipeline_name = ''pipe'', solid_selection = Some [''a'']\<rparr> 0 =
     (Inl CheckError :: error + (pipeline_selector, nat) external_pipeline)"
    using remote_pipeline_lookup
      [of "\<lambda>h :: nat. \<lparr>location_name = ''loc'', get_repositories = [],
             get_subset_external_pipeline_result = (\<lambda>s. \<lparr>external_pipeline_data = s\<rparr>)\<rparr>" 0
          "\<lparr>pipeline_name = ''pipe'', solid_selection = Some [''a'']\<rparr>"]
    by simp
  show "external_pipeline_from_run_with_repository_location_handle
     (\<lambda>h :: nat. \<lparr>location_name = ''loc'',
        get_repositories = [(''repo'', \<lparr>repository_name = ''repo'', repository_handle = h\<rparr>)],
        get_subset_external_pipeline_result = (\<lambda>s. \<lparr>external_pipeline_data = s\<rparr>)\<rparr>)
     \<lparr>pipeline_name = ''pipe'', solid_selection = Some [''a'']\<rparr> 4 =
     Inr (ExternalPipeline
            \<lparr>selector_location_name = ''loc'', selector_repository_name = ''repo'',
             selector_pipeline_name = ''pipe'', selector_solid_selection = Some [''a'']\<rparr> 4)"
    using remote_pipeline_lookup
      [of "\<lambda>h :: nat. \<lparr>location_name = ''loc'',
             get_repositories = [(''repo'', \<lparr>repository_name = ''repo'', repository_handle = h\<rparr>)],
             get_subset_external_pipeline_result = (\<lambda>s. \<lparr>external_pipeline_data = s\<rparr>)\<rparr>" 4
          "\<lparr>pipeline_name = ''pipe'', solid_selection = Some [''a'']\<rparr>"]
    by simp
qed


end
